theory Spec2Isabelle
  imports Complex_Main
begin

section \<open>Arrays, exceptions and the numpy operations used by Fe_statistic.py\<close>

text \<open>
  A float64 is modelled as a real number: rounding, infinities and NaN are outside the
  model.  A 1-D array is a list, a 2-D array is the list of its rows (all of one length).
  An array with an empty axis is identified with the empty list, so the shapes covered
  are those with at least one row and one column, which are the shapes a pulsar timing
  model produces.  Every exception the code can raise is a value of \<open>error\<close>.
\<close>

type_synonym vec = "real list"
type_synonym mat = "real list list"

datatype ndarray = Arr1 vec | Arr2 mat

datatype error = ValueError | LinAlgError | TypeError | IndexError | OtherError

definition ebind :: "error + 'a \<Rightarrow> ('a \<Rightarrow> error + 'b) \<Rightarrow> error + 'b" where
  "ebind m f = (case m of Inl e \<Rightarrow> Inl e | Inr v \<Rightarrow> f v)"

fun emap :: "('a \<Rightarrow> error + 'b) \<Rightarrow> 'a list \<Rightarrow> error + 'b list" where
  "emap f [] = Inr []"
| "emap f (x # xs) = ebind (f x) (\<lambda>v. ebind (emap f xs) (\<lambda>vs. Inr (v # vs)))"

definition nrows :: "mat \<Rightarrow> nat" where
  "nrows M = length M"

definition ncols :: "mat \<Rightarrow> nat" where
  "ncols M = (case M of [] \<Rightarrow> 0 | r # _ \<Rightarrow> length r)"

definition is_mat :: "nat \<Rightarrow> nat \<Rightarrow> mat \<Rightarrow> bool" where
  "is_mat n m M = (length M = n \<and> list_all (\<lambda>r. length r = m) M)"

definition column :: "mat \<Rightarrow> nat \<Rightarrow> vec" where
  "column M j = map (\<lambda>r. r ! j) M"

definition transpose_m :: "mat \<Rightarrow> mat" where
  "transpose_m M = map (column M) [0..<ncols M]"

definition vdot :: "vec \<Rightarrow> vec \<Rightarrow> real" where
  "vdot a b = sum_list (map2 (*) a b)"

text \<open>The products behind \<open>np.dot\<close>: a vector with the columns of a matrix, the rows
  of a matrix with a vector.\<close>

definition vecmat :: "vec \<Rightarrow> mat \<Rightarrow> vec" where
  "vecmat x M = map (\<lambda>j. vdot x (column M j)) [0..<ncols M]"

definition matvec :: "mat \<Rightarrow> vec \<Rightarrow> vec" where
  "matvec M x = map (\<lambda>r. vdot r x) M"

text \<open>\<open>np.dot\<close> on 1-D and 2-D operands; it never broadcasts and raises ValueError when
  the contracted axes differ.\<close>

definition dot_vv :: "vec \<Rightarrow> vec \<Rightarrow> error + real" where
  "dot_vv a b = (if length a = length b then Inr (vdot a b) else Inl ValueError)"

definition dot_vm :: "vec \<Rightarrow> mat \<Rightarrow> error + vec" where
  "dot_vm x M = (if length x = nrows M then Inr (vecmat x M) else Inl ValueError)"

definition dot_mv :: "mat \<Rightarrow> vec \<Rightarrow> error + vec" where
  "dot_mv M x = (if ncols M = length x then Inr (matvec M x) else Inl ValueError)"

definition dot_mm :: "mat \<Rightarrow> mat \<Rightarrow> error + mat" where
  "dot_mm A B = (if ncols A = nrows B
                 then Inr (map (\<lambda>r. vecmat r B) A)
                 else Inl ValueError)"

text \<open>Elementwise \<open>+\<close> and \<open>-\<close> of two 2-D arrays of one shape.  numpy would stretch an
  axis of length one; the model reports every other pair of shapes as ValueError, and the
  theorems below are stated for operands of equal shape.\<close>

definition same_shape :: "mat \<Rightarrow> mat \<Rightarrow> bool" where
  "same_shape A B = (map length A = map length B)"

definition mat_add :: "mat \<Rightarrow> mat \<Rightarrow> error + mat" where
  "mat_add A B = (if same_shape A B then Inr (map2 (map2 (+)) A B) else Inl ValueError)"

definition mat_sub :: "mat \<Rightarrow> mat \<Rightarrow> error + mat" where
  "mat_sub A B = (if same_shape A B then Inr (map2 (map2 (-)) A B) else Inl ValueError)"

definition diag :: "vec \<Rightarrow> mat" where
  "diag v = map (\<lambda>i. map (\<lambda>j. if i = j then v ! i else 0) [0..<length v]) [0..<length v]"

definition eye :: "nat \<Rightarrow> mat" where
  "eye n = map (\<lambda>i. map (\<lambda>j. if i = j then 1 else 0) [0..<n]) [0..<n]"

section \<open>scipy.linalg.cho_factor and cho_solve\<close>

text \<open>
  \<open>cho_factor\<close> reads the upper triangle of its argument and returns the upper factor
  \<open>U\<close> with \<open>U\<^sup>T U = Sigma\<close>; LAPACK stops with a positive info code, which scipy turns
  into LinAlgError, as soon as a pivot is not positive.  In exact arithmetic every
  ordering of the elimination computes the same pivots and the same factor; the model
  eliminates one row at a time.  The factor is kept as its rows from the diagonal on (the
  entries below the diagonal are never read by \<open>cho_solve\<close>).  The flag \<open>check_finite\<close>
  makes scipy reject infinities and NaN; real numbers have neither, so the flag is carried
  and has no effect.
\<close>

definition urow :: "vec \<Rightarrow> vec" where
  "urow row = map (\<lambda>v. v / sqrt (hd row)) (tl row)"

definition schur :: "vec \<Rightarrow> mat \<Rightarrow> mat" where
  "schur u rows = map2 (\<lambda>ui row. map2 (\<lambda>uj b. b - ui * uj) u (tl row)) u rows"

function chol_upper :: "mat \<Rightarrow> error + mat" where
  "chol_upper [] = Inr []"
| "chol_upper (row # rows) =
     (if row = [] then Inl ValueError
      else if hd row \<le> 0 then Inl LinAlgError
      else ebind (chol_upper (schur (urow row) rows))
             (\<lambda>U. Inr ((sqrt (hd row) # urow row) # U)))"
  by pat_completeness auto
termination
  by (relation "measure length") (auto simp: schur_def)

definition is_square :: "mat \<Rightarrow> bool" where
  "is_square A = list_all (\<lambda>r. length r = length A) A"

definition cho_factor :: "bool \<Rightarrow> mat \<Rightarrow> error + mat" where
  "cho_factor check_finite A = (if is_square A then chol_upper A else Inl ValueError)"

text \<open>\<open>cho_solve\<close> solves \<open>U\<^sup>T y = b\<close> and then \<open>U x = y\<close>.\<close>

fun fwd_subst :: "mat \<Rightarrow> vec \<Rightarrow> vec" where
  "fwd_subst (row # U) (b # bs) =
     (b / hd row) # fwd_subst U (map2 (\<lambda>u c. c - u * (b / hd row)) (tl row) bs)"
| "fwd_subst _ _ = []"

fun back_subst :: "mat \<Rightarrow> vec \<Rightarrow> vec" where
  "back_subst (row # U) (y # ys) =
     ((y - vdot (tl row) (back_subst U ys)) / hd row) # back_subst U ys"
| "back_subst _ _ = []"

definition chol_solve :: "mat \<Rightarrow> vec \<Rightarrow> vec" where
  "chol_solve U b = back_subst U (fwd_subst U b)"

text \<open>A 1-D right-hand side is one system; a 2-D one is solved column by column.\<close>

definition cho_solve :: "bool \<Rightarrow> mat \<Rightarrow> vec \<Rightarrow> error + vec" where
  "cho_solve check_finite U b =
     (if length U = length b then Inr (chol_solve U b) else Inl ValueError)"

definition cho_solve_mat :: "bool \<Rightarrow> mat \<Rightarrow> mat \<Rightarrow> error + mat" where
  "cho_solve_mat check_finite U B =
     (if length U = nrows B
      then Inr (map (\<lambda>i. map (\<lambda>j. chol_solve U (column B j) ! i) [0..<ncols B])
                  [0..<nrows B])
      else Inl ValueError)"

section \<open>innerProduct_rr\<close>

text \<open>
  The guard \<open>TNx == None and TNy == None\<close>: comparing an array with None gives an array
  of False, one per element; \<open>and\<close> and \<open>if\<close> ask for the truth value of their operand,
  which for an array of more than one element is a ValueError (an empty array counts as
  false, as in the numpy releases before 2.2; later ones raise there as well).
\<close>

datatype pyval = PyBool bool | PyArr "bool list"

definition eq_None :: "vec option \<Rightarrow> pyval" where
  "eq_None a = (case a of None \<Rightarrow> PyBool True | Some v \<Rightarrow> PyArr (map (\<lambda>_. False) v))"

definition truth :: "pyval \<Rightarrow> error + bool" where
  "truth v = (case v of PyBool b \<Rightarrow> Inr b
              | PyArr bs \<Rightarrow> (case bs of [] \<Rightarrow> Inr False
                             | b # rest \<Rightarrow> if rest = [] then Inr b else Inl ValueError))"

definition py_and :: "pyval \<Rightarrow> pyval \<Rightarrow> error + pyval" where
  "py_and a b = ebind (truth a) (\<lambda>t. Inr (if t then b else a))"

definition none_guard :: "vec option \<Rightarrow> vec option \<Rightarrow> error + bool" where
  "none_guard TNx TNy = ebind (py_and (eq_None TNx) (eq_None TNy)) truth"

text \<open>Lines 139 to 144: factor Sigma and solve against TNy.  A TNy that is still None
  reaches scipy, which raises (the class of that exception depends on the scipy version:
  OtherError).\<close>

definition factor_and_solve :: "bool \<Rightarrow> mat \<Rightarrow> vec option \<Rightarrow> error + vec" where
  "factor_and_solve check_finite Sigma_m TNy =
     ebind (cho_factor check_finite Sigma_m) (\<lambda>cf.
       case TNy of None \<Rightarrow> Inl OtherError | Some b \<Rightarrow> cho_solve check_finite cf b)"

definition innerProduct_rr ::
  "vec \<Rightarrow> vec \<Rightarrow> mat \<Rightarrow> mat \<Rightarrow> mat \<Rightarrow> vec option \<Rightarrow> vec option \<Rightarrow> bool \<Rightarrow> error + real" where
  "innerProduct_rr x y Nmat Tmat Sigma_m TNx TNy brave =
     ebind (dot_vm x Nmat) (\<lambda>xN.
     ebind (dot_vv xN y) (\<lambda>xNy.
     ebind (dot_mv Nmat x) (\<lambda>Nx.
     ebind (dot_mv Nmat y) (\<lambda>Ny.
     ebind (none_guard TNx TNy) (\<lambda>g.
     ebind (if g
            then ebind (dot_mv (transpose_m Tmat) Nx) (\<lambda>a.
                 ebind (dot_mv (transpose_m Tmat) Ny) (\<lambda>b. Inr (Some a, Some b)))
            else Inr (TNx, TNy)) (\<lambda>tn.
     ebind (if brave then factor_and_solve False Sigma_m (snd tn)
            else factor_and_solve True Sigma_m (snd tn)) (\<lambda>SigmaTNy.
     ebind (case fst tn of None \<Rightarrow> Inl TypeError | Some a \<Rightarrow> dot_vv a SigmaTNy) (\<lambda>d.
     Inr (xNy - d)))))))))"

section \<open>make_Nmat\<close>

text \<open>
  The noise descriptor \<open>Nvec\<close> is an object of the enterprise package; the code uses its
  method \<open>solve(other, left_array)\<close> only, so a descriptor is that method.
  \<open>white_noise nv\<close> is the descriptor of a diagonal noise matrix with variances \<open>nv\<close>:
  it divides row \<open>i\<close> of \<open>other\<close> by \<open>nv[i]\<close> and multiplies by \<open>left_array.T\<close>.
\<close>

type_synonym noise = "mat \<Rightarrow> mat \<Rightarrow> error + mat"

definition white_noise :: "vec \<Rightarrow> noise" where
  "white_noise nv other left_array =
     (if length nv = nrows other
      then dot_mm (transpose_m left_array) (map2 (\<lambda>d r. map (\<lambda>v. v / d) r) nv other)
      else Inl ValueError)"

text \<open>\<open>TNT + (np.diag(phiinv) if phiinv.ndim == 1 else phiinv)\<close>, in \<open>make_Nmat\<close> and in
  \<open>compute_Fe\<close>.\<close>

definition form_Sigma :: "mat \<Rightarrow> ndarray \<Rightarrow> error + mat" where
  "form_Sigma TNT phiinv =
     mat_add TNT (case phiinv of Arr1 v \<Rightarrow> diag v | Arr2 P \<Rightarrow> P)"

definition make_Nmat :: "ndarray \<Rightarrow> mat \<Rightarrow> noise \<Rightarrow> mat \<Rightarrow> error + mat" where
  "make_Nmat phiinv TNT Nvec T =
     ebind (form_Sigma TNT phiinv) (\<lambda>Sigma_m.
     ebind (cho_factor True Sigma_m) (\<lambda>cf.
     ebind (Nvec (eye (nrows T)) T) (\<lambda>TtN.
     ebind (Nvec (eye (nrows T)) (eye (nrows T))) (\<lambda>Ndiag.
     ebind (cho_solve_mat True cf TtN) (\<lambda>expval2.
     ebind (dot_mm (transpose_m TtN) expval2) (\<lambda>corr.
     mat_sub Ndiag corr))))))"

section \<open>The class FeStat\<close>

text \<open>
  The pta object is an object of the enterprise package, built by \<open>models.model_cw\<close>,
  which is a parameter of the constructor below.  The code calls four methods of the pta
  object; each is a field of the record.  \<open>get_phiinv\<close> is called with
  the default method in \<open>compute_Fe\<close> and with \<open>method='partition'\<close> in \<open>get_Nmats\<close>;
  \<open>get_basis\<close> is called without argument in \<open>compute_Fe\<close> (None here) and with
  \<open>self.params\<close> in \<open>get_Nmats\<close>.
\<close>

datatype phi_method = Cliques | Partition

record pulsar =
  toas :: vec
  residuals :: vec
  pos :: vec

record 'p pta_model =
  get_TNT :: "'p \<Rightarrow> mat list"
  get_phiinv :: "'p \<Rightarrow> phi_method \<Rightarrow> ndarray list"
  get_ndiag :: "'p \<Rightarrow> noise list"
  get_basis :: "'p option \<Rightarrow> mat list"

record 'p FeStat =
  pta :: "'p pta_model"
  psrs :: "pulsar list"
  params :: 'p
  Nmats :: "mat list option"

definition FeStat_init ::
  "(pulsar list \<Rightarrow> 'p \<Rightarrow> 'p pta_model) \<Rightarrow> pulsar list \<Rightarrow> 'p \<Rightarrow> 'p FeStat" where
  "FeStat_init model_cw ps prm =
     \<lparr>pta = model_cw ps prm, psrs = ps, params = prm, Nmats = None\<rparr>"

definition get_Nmats :: "'p FeStat \<Rightarrow> error + mat list" where
  "get_Nmats self =
     (let TNTs = get_TNT (pta self) (params self);
          phiinvs = get_phiinv (pta self) (params self) Partition;
          Nvecs = get_ndiag (pta self) (params self);
          Ts = get_basis (pta self) (Some (params self))
      in emap (\<lambda>(phiinv, TNT, Nvec, T). make_Nmat phiinv TNT Nvec T)
              (zip phiinvs (zip TNTs (zip Nvecs Ts))))"

text \<open>Lines 74 to 78: the four rows of \<open>A\<close>.  The frequency \<open>f0\<close> is positive.\<close>

definition templates :: "real \<Rightarrow> vec \<Rightarrow> mat" where
  "templates f0 ts =
     [map (\<lambda>t. 1 / f0 powr (1 / 3) * sin (2 * pi * f0 * t)) ts,
      map (\<lambda>t. 1 / f0 powr (1 / 3) * cos (2 * pi * f0 * t)) ts,
      map (\<lambda>t. 1 / f0 powr (1 / 3) * sin (2 * pi * f0 * t)) ts,
      map (\<lambda>t. 1 / f0 powr (1 / 3) * cos (2 * pi * f0 * t)) ts]"

text \<open>Lines 69 to 90: the body of the loop over the pulsars.\<close>

definition pulsar_NM ::
  "real \<Rightarrow> bool \<Rightarrow> pulsar \<Rightarrow> mat \<Rightarrow> mat \<Rightarrow> ndarray \<Rightarrow> mat \<Rightarrow> error + vec \<times> mat" where
  "pulsar_NM f0 brave psr Nmat TNT phiinv T =
     ebind (form_Sigma TNT phiinv) (\<lambda>Sigma_m.
     ebind (innerProduct_rr (templates f0 (toas psr) ! 0) (residuals psr)
              Nmat T Sigma_m None None brave) (\<lambda>ip1.
     ebind (innerProduct_rr (templates f0 (toas psr) ! 1) (residuals psr)
              Nmat T Sigma_m None None brave) (\<lambda>ip2.
     ebind (innerProduct_rr (templates f0 (toas psr) ! 2) (residuals psr)
              Nmat T Sigma_m None None brave) (\<lambda>ip3.
     ebind (innerProduct_rr (templates f0 (toas psr) ! 2) (residuals psr)
              Nmat T Sigma_m None None brave) (\<lambda>ip4.
     ebind (emap (\<lambda>jj. emap (\<lambda>kk.
                innerProduct_rr (templates f0 (toas psr) ! jj) (templates f0 (toas psr) ! kk)
                  Nmat T Sigma_m None None brave) [0..<4]) [0..<4]) (\<lambda>M.
     Inr ([ip1, ip2, ip3, ip4], M)))))))"

text \<open>Lines 63 to 90: \<open>zip\<close> stops at the shortest of its arguments; the rows of \<open>N\<close> and
  \<open>M\<close> of pulsars it does not reach stay zero.\<close>

definition all_NM ::
  "real \<Rightarrow> bool \<Rightarrow> pulsar list \<Rightarrow> mat list \<Rightarrow> mat list \<Rightarrow> ndarray list \<Rightarrow> mat list
   \<Rightarrow> error + vec list \<times> mat list" where
  "all_NM f0 brave ps Nms TNTs phiinvs Ts =
     ebind (emap (\<lambda>(psr, Nmat, TNT, phiinv, T). pulsar_NM f0 brave psr Nmat TNT phiinv T)
              (zip ps (zip Nms (zip TNTs (zip phiinvs Ts))))) (\<lambda>res.
     Inr (map fst res @ replicate (length ps - length res) (replicate 4 0),
          map snd res @ replicate (length ps - length res) (replicate 4 (replicate 4 0))))"

text \<open>Lines 98 to 102: the in-place products with the antenna pattern.\<close>

definition scale_N :: "real \<Rightarrow> real \<Rightarrow> vec \<Rightarrow> vec" where
  "scale_N F_p F_c row = map2 (*) row [F_p, F_p, F_c, F_c]"

definition scale_M :: "real \<Rightarrow> real \<Rightarrow> mat \<Rightarrow> mat" where
  "scale_M F_p F_c m =
     map2 (map2 (*)) m
       [[F_p ^ 2, F_p ^ 2, F_p * F_c, F_p * F_c],
        [F_p ^ 2, F_p ^ 2, F_p * F_c, F_p * F_c],
        [F_p * F_c, F_p * F_c, F_c ^ 2, F_c ^ 2],
        [F_p * F_c, F_p * F_c, F_c ^ 2, F_c ^ 2]]"

definition sum_N :: "vec list \<Rightarrow> vec" where
  "sum_N NN = map (\<lambda>i. sum_list (map (\<lambda>r. r ! i) NN)) [0..<4]"

definition sum_M :: "mat list \<Rightarrow> mat" where
  "sum_M MM = map (\<lambda>i. map (\<lambda>j. sum_list (map (\<lambda>m. m ! i ! j) MM)) [0..<4]) [0..<4]"

text \<open>
  Lines 94 to 109: the statistic at one sky position.  \<open>antenna\<close> stands for
  \<open>utils.create_gw_antenna_pattern\<close> and \<open>pinv\<close> for \<open>np.linalg.pinv\<close>, both functions
  of other packages.
\<close>

type_synonym antenna_pattern = "vec \<Rightarrow> real \<Rightarrow> real \<Rightarrow> real \<times> real \<times> real"

definition scale_psr ::
  "antenna_pattern \<Rightarrow> vec \<Rightarrow> pulsar \<times> vec \<times> mat \<Rightarrow> error + vec \<times> mat" where
  "scale_psr antenna gw_pos = (\<lambda>(psr, Nrow, Mrow).
     if length gw_pos < 2 then Inl IndexError
     else (case antenna (pos psr) (gw_pos ! 0) (gw_pos ! 1) of (F_p, F_c, _) \<Rightarrow>
             Inr (scale_N F_p F_c Nrow, scale_M F_p F_c Mrow)))"

definition sky_point ::
  "antenna_pattern \<Rightarrow> (mat \<Rightarrow> mat) \<Rightarrow> pulsar list \<Rightarrow> vec list \<Rightarrow> mat list \<Rightarrow> vec
   \<Rightarrow> error + real" where
  "sky_point antenna pinv ps N M gw_pos =
     ebind (emap (scale_psr antenna gw_pos) (zip ps (zip N M))) (\<lambda>scaled.
     ebind (dot_mv (pinv (sum_M (map snd scaled))) (sum_N (map fst scaled))) (\<lambda>w.
     ebind (dot_vv (sum_N (map fst scaled)) w) (\<lambda>q.
     Inr (0.5 * q))))"

text \<open>\<open>compute_Fe\<close> returns its result, or the exception it raised, and the instance as
  it is left.\<close>

definition compute_Fe ::
  "antenna_pattern \<Rightarrow> (mat \<Rightarrow> mat) \<Rightarrow> 'p FeStat \<Rightarrow> real \<Rightarrow> mat \<Rightarrow> bool
   \<Rightarrow> (error + vec) \<times> 'p FeStat" where
  "compute_Fe antenna pinv self f0 gw_skyloc brave =
     (let phiinvs = get_phiinv (pta self) (params self) Cliques;
          TNTs = get_TNT (pta self) (params self);
          Ts = get_basis (pta self) None
      in case (case Nmats self of None \<Rightarrow> get_Nmats self | Some c \<Rightarrow> Inr c) of
           Inl e \<Rightarrow> (Inl e, self)
         | Inr c \<Rightarrow>
             (ebind (all_NM f0 brave (psrs self) c TNTs phiinvs Ts) (\<lambda>(N, M).
                emap (sky_point antenna pinv (psrs self) N M) (transpose_m gw_skyloc)),
              self\<lparr>Nmats := Some c\<rparr>))"

section \<open>A small instance\<close>

text \<open>
  One pulsar with one observation at time 0, a one-column basis, unit white noise, and
  the pta data that belong to it: \<open>TNT = T\<^sup>T N\<^sup>-\<^sup>1 T = 1\<close>, \<open>phiinv = 3\<close>, so
  \<open>Sigma = 4\<close> and \<open>Nmat = 3/4\<close>.  \<open>psr_short\<close> is the same pulsar with one residual
  too many, and \<open>fe_two\<close> holds both pulsars.  \<open>pinv_diag\<close> is the pseudo-inverse of a diagonal matrix: the reciprocals
  of the nonzero diagonal entries.
\<close>

definition psr0 :: pulsar where
  "psr0 = \<lparr>toas = [0], residuals = [1], pos = [1, 0, 0]\<rparr>"

definition psr_short :: pulsar where
  "psr_short = \<lparr>toas = [0], residuals = [1, 2], pos = [1, 0, 0]\<rparr>"

definition pta0 :: "unit pta_model" where
  "pta0 = \<lparr>get_TNT = (\<lambda>_. [[[1]]]), get_phiinv = (\<lambda>_ _. [Arr1 [3]]),
           get_ndiag = (\<lambda>_. [white_noise [1]]), get_basis = (\<lambda>_. [[[1]]])\<rparr>"

definition pta_indefinite :: "unit pta_model" where
  "pta_indefinite = \<lparr>get_TNT = (\<lambda>_. [[[1]]]), get_phiinv = (\<lambda>_ _. [Arr1 [- 3]]),
           get_ndiag = (\<lambda>_. [white_noise [1]]), get_basis = (\<lambda>_. [[[1]]])\<rparr>"

definition fe0 :: "unit FeStat" where
  "fe0 = FeStat_init (\<lambda>_ _. pta0) [psr0] ()"

definition fe_short :: "unit FeStat" where
  "fe_short = FeStat_init (\<lambda>_ _. pta0) [psr_short] ()"

definition fe_short_indefinite :: "unit FeStat" where
  "fe_short_indefinite = FeStat_init (\<lambda>_ _. pta_indefinite) [psr_short] ()"

definition pta_two :: "unit pta_model" where
  "pta_two = \<lparr>get_TNT = (\<lambda>_. [[[1]], [[1]]]), get_phiinv = (\<lambda>_ _. [Arr1 [3], Arr1 [3]]),
           get_ndiag = (\<lambda>_. [white_noise [1], white_noise [1]]),
           get_basis = (\<lambda>_. [[[1]], [[1]]])\<rparr>"

definition fe_two :: "unit FeStat" where
  "fe_two = FeStat_init (\<lambda>_ _. pta_two) [psr0, psr_short] ()"

definition antenna_plus :: antenna_pattern where
  "antenna_plus p theta phi = (1, 0, 0)"

definition pinv_diag :: "mat \<Rightarrow> mat" where
  "pinv_diag M =
     map (\<lambda>i. map (\<lambda>j. if i = j \<and> M ! i ! i \<noteq> 0 then 1 / (M ! i ! i) else 0) [0..<length M])
       [0..<length M]"

section \<open>The statistic as the specification words it\<close>

text \<open>
  For a sky position \<open>(theta, phi)\<close> pulsar \<open>p\<close> has the antenna pattern
  \<open>(F_p, F_c)\<close> and the weights \<open>(F_p, F_p, F_c, F_c)\<close>.  \<open>N_sum\<close> is the sum over the
  pulsars of the vectors \<open>N[p]\<close>, each entry multiplied by its weight; \<open>M_sum\<close> is the
  sum of the matrices \<open>M[p]\<close>, entry \<open>(i, j)\<close> multiplied by the product of the weights
  \<open>i\<close> and \<open>j\<close>; the statistic is \<open>0.5 N_sum\<^sup>T pinv(M_sum) N_sum\<close>.
\<close>

definition weights :: "antenna_pattern \<Rightarrow> pulsar \<Rightarrow> real \<Rightarrow> real \<Rightarrow> vec" where
  "weights antenna psr theta phi =
     (case antenna (pos psr) theta phi of (F_p, F_c, _) \<Rightarrow> [F_p, F_p, F_c, F_c])"

definition N_sum_spec ::
  "antenna_pattern \<Rightarrow> pulsar list \<Rightarrow> vec list \<Rightarrow> real \<Rightarrow> real \<Rightarrow> vec" where
  "N_sum_spec antenna ps N theta phi =
     map (\<lambda>i. sum_list (map (\<lambda>p. weights antenna (ps ! p) theta phi ! i * N ! p ! i)
                           [0..<length ps])) [0..<4]"

definition M_sum_spec ::
  "antenna_pattern \<Rightarrow> pulsar list \<Rightarrow> mat list \<Rightarrow> real \<Rightarrow> real \<Rightarrow> mat" where
  "M_sum_spec antenna ps M theta phi =
     map (\<lambda>i. map (\<lambda>j. sum_list (map (\<lambda>p. weights antenna (ps ! p) theta phi ! i
                                            * weights antenna (ps ! p) theta phi ! j
                                            * M ! p ! i ! j) [0..<length ps])) [0..<4]) [0..<4]"

definition Fe_spec ::
  "antenna_pattern \<Rightarrow> (mat \<Rightarrow> mat) \<Rightarrow> pulsar list \<Rightarrow> vec list \<Rightarrow> mat list \<Rightarrow> real \<Rightarrow> real
   \<Rightarrow> real" where
  "Fe_spec antenna pinv ps N M theta phi =
     0.5 * vdot (N_sum_spec antenna ps N theta phi)
             (matvec (pinv (M_sum_spec antenna ps M theta phi))
                (N_sum_spec antenna ps N theta phi))"

text \<open>The instance with every residual multiplied by \<open>c\<close>.\<close>

definition scale_residuals :: "real \<Rightarrow> 'p FeStat \<Rightarrow> 'p FeStat" where
  "scale_residuals c self =
     self\<lparr>psrs := map (\<lambda>p. p\<lparr>residuals := map (\<lambda>r. c * r) (residuals p)\<rparr>) (psrs self)\<rparr>"

section \<open>Notions used to state the properties\<close>

text \<open>A symmetric matrix is square and equal to its transpose.\<close>

definition symmetric :: "mat \<Rightarrow> bool" where
  "symmetric A = (is_square A \<and> transpose_m A = A)"

text \<open>A packed upper triangle: row \<open>i\<close> of \<open>n\<close> rows holds the \<open>n - i\<close> entries from the
  diagonal on.  \<open>umul U v\<close> is \<open>U v\<close> and \<open>utmul U w\<close> is \<open>U\<^sup>T w\<close>.\<close>

fun tri :: "mat \<Rightarrow> bool" where
  "tri [] = True"
| "tri (row # U) = (length row = Suc (length U) \<and> hd row \<noteq> 0 \<and> tri U)"

fun umul :: "mat \<Rightarrow> vec \<Rightarrow> vec" where
  "umul (row # U) (v # vs) = vdot row (v # vs) # umul U vs"
| "umul _ _ = []"

fun utmul :: "mat \<Rightarrow> vec \<Rightarrow> vec" where
  "utmul (row # U) (w # ws) = (hd row * w) # map2 (\<lambda>u t. u * w + t) (tl row) (utmul U ws)"
| "utmul _ _ = []"

section \<open>Exceptions in sequence\<close>

lemma ebind_simps [simp]: "ebind (Inl e) f = Inl e" "ebind (Inr v) f = f v"
  by (simp_all add: ebind_def)

lemma emap_Inr_length: "emap f xs = Inr ys \<Longrightarrow> length ys = length xs"
proof (induction xs arbitrary: ys)
  case Nil
  then show ?case by simp
next
  case (Cons x xs)
  then show ?case by (auto simp: ebind_def split: sum.splits)
qed

lemma emap_Inr_nth: "emap f xs = Inr ys \<Longrightarrow> i < length xs \<Longrightarrow> f (xs ! i) = Inr (ys ! i)"
proof (induction xs arbitrary: ys i)
  case Nil
  then show ?case by simp
next
  case (Cons x xs)
  from Cons.prems(1) obtain v vs where v: "f x = Inr v" and vs: "emap f xs = Inr vs"
    and ys: "ys = v # vs" by (auto simp: ebind_def split: sum.splits)
  show ?case using Cons.IH [OF vs] Cons.prems(2) v ys by (cases i) simp_all
qed

lemma emap_total: "(\<And>x. x \<in> set xs \<Longrightarrow> f x = Inr (g x)) \<Longrightarrow> emap f xs = Inr (map g xs)"
  by (induction xs) simp_all

lemma emap_map: "emap f (map g xs) = emap (\<lambda>x. f (g x)) xs"
  by (induction xs) simp_all

lemma emap_map_sum:
  "(\<And>x. x \<in> set xs \<Longrightarrow> f' x = map_sum id h (f x)) \<Longrightarrow>
   emap f' xs = map_sum id (map h) (emap f xs)"
proof (induction xs)
  case Nil
  show ?case by simp
next
  case (Cons x xs)
  have 1: "f' x = map_sum id h (f x)" by (rule Cons.prems) simp
  have 2: "emap f' xs = map_sum id (map h) (emap f xs)"
    by (rule Cons.IH) (simp add: Cons.prems)
  show ?case by (cases "f x"; cases "emap f xs") (simp_all add: 1 2)
qed

lemma emap_first_error:
  "k < length xs \<Longrightarrow> f (xs ! k) = Inl e \<Longrightarrow> (\<forall>i<k. \<exists>r. f (xs ! i) = Inr r) \<Longrightarrow>
   emap f xs = Inl e"
proof (induction xs arbitrary: k)
  case Nil
  then show ?case by simp
next
  case (Cons x xs)
  show ?case
  proof (cases k)
    case 0
    with Cons.prems show ?thesis by simp
  next
    case (Suc j)
    from Cons.prems(3) Suc obtain r where r: "f x = Inr r" by force
    have "emap f xs = Inl e"
    proof (rule Cons.IH)
      show "j < length xs" using Cons.prems(1) Suc by simp
      show "f (xs ! j) = Inl e" using Cons.prems(2) Suc by simp
      show "\<forall>i<j. \<exists>r. f (xs ! i) = Inr r"
      proof (intro allI impI)
        fix i assume "i < j"
        then have "Suc i < k" using Suc by simp
        with Cons.prems(3) show "\<exists>r. f (xs ! i) = Inr r" by force
      qed
    qed
    with r show ?thesis by simp
  qed
qed

section \<open>Dot products\<close>

lemma vdot_Nil [simp]: "vdot [] b = 0" "vdot a [] = 0"
  by (simp_all add: vdot_def)

lemma vdot_Cons [simp]: "vdot (a # as) (b # bs) = a * b + vdot as bs"
  by (simp add: vdot_def)

lemma vdot_commute: "vdot a b = vdot b a"
proof (induction a arbitrary: b)
  case Nil
  show ?case by simp
next
  case (Cons x xs)
  show ?case by (cases b) (simp_all add: Cons.IH)
qed

lemma vdot_scale_right: "vdot a (map (\<lambda>v. c * v) b) = c * vdot a b"
proof (induction a arbitrary: b)
  case Nil
  show ?case by simp
next
  case (Cons x xs)
  show ?case by (cases b) (simp_all add: Cons.IH distrib_left mult.left_commute)
qed

lemma vdot_scale_left: "vdot (map (\<lambda>v. c * v) a) b = c * vdot a b"
  using vdot_scale_right [of b c a] by (simp add: vdot_commute)

lemma vdot_axpy_left:
  "length u = length bs \<Longrightarrow> length bs = length xs \<Longrightarrow>
   vdot (map2 (\<lambda>p c. c - k * p) u bs) xs = vdot bs xs - k * vdot u xs"
proof (induction u bs xs rule: list_induct3)
  case Nil
  show ?case by simp
next
  case (Cons p ps c cs x xs)
  then show ?case by (simp add: algebra_simps)
qed

lemma vdot_axpy_add:
  "length u = length ts \<Longrightarrow> length ts = length xs \<Longrightarrow>
   vdot xs (map2 (\<lambda>p t. p * k + t) u ts) = k * vdot xs u + vdot xs ts"
proof (induction u ts xs rule: list_induct3)
  case Nil
  show ?case by simp
next
  case (Cons p ps c cs x xs)
  then show ?case by (simp add: algebra_simps)
qed

lemma vdot_zero_right [simp]: "vdot a (replicate n 0) = 0"
proof (induction a arbitrary: n)
  case Nil
  show ?case by simp
next
  case (Cons x xs)
  show ?case by (cases n) (simp_all add: Cons.IH)
qed

lemma vdot_zero_left [simp]: "vdot (replicate n 0) b = 0"
  using vdot_zero_right [of b n] by (simp add: vdot_commute)



lemma vdot_sum: "length a = length b \<Longrightarrow> vdot a b = (\<Sum>i<length a. a ! i * b ! i)"
proof -
  assume l: "length a = length b"
  have "vdot a b = (\<Sum>i = 0..<length (map2 (*) a b). map2 (*) a b ! i)"
    unfolding vdot_def by (rule sum_list_sum_nth)
  also have "\<dots> = (\<Sum>i<length a. a ! i * b ! i)"
    using l by (intro sum.cong) (auto simp: atLeast0LessThan)
  finally show ?thesis .
qed

lemma length_vecmat [simp]: "length (vecmat x M) = ncols M"
  by (simp add: vecmat_def)

lemma length_matvec [simp]: "length (matvec M x) = length M"
  by (simp add: matvec_def)

lemma matvec_scale: "matvec M (map (\<lambda>v. c * v) x) = map (\<lambda>v. c * v) (matvec M x)"
  by (simp add: matvec_def vdot_scale_right)

section \<open>Shapes\<close>

lemma is_square_nth: "is_square A \<Longrightarrow> i < length A \<Longrightarrow> length (A ! i) = length A"
  by (simp add: is_square_def list_all_length)

lemma is_square_ncols: "is_square A \<Longrightarrow> ncols A = length A"
  by (cases A) (simp_all add: is_square_def ncols_def)

lemma square_rect: "is_square A \<Longrightarrow> list_all (\<lambda>r. length r = ncols A) A"
  using is_square_ncols [of A] by (simp add: is_square_def)

lemma is_mat_ncols: "is_mat n m M \<Longrightarrow> 0 < n \<Longrightarrow> ncols M = m"
  by (cases M) (simp_all add: is_mat_def ncols_def)

lemma is_mat_square: "is_mat n n M \<Longrightarrow> is_square M"
  by (auto simp: is_mat_def is_square_def)

lemma is_mat_transpose: "is_mat n m M \<Longrightarrow> 0 < n \<Longrightarrow> is_mat m n (transpose_m M)"
  by (simp add: is_mat_def transpose_m_def is_mat_ncols [of n m M] list_all_length column_def)

lemma is_mat_nth: "is_mat n m M \<Longrightarrow> i < n \<Longrightarrow> length (M ! i) = m"
  by (simp add: is_mat_def list_all_length)

lemma is_mat_length: "is_mat n m M \<Longrightarrow> length M = n"
  by (simp add: is_mat_def)

lemma is_matI: "length M = n \<Longrightarrow> (\<And>i. i < n \<Longrightarrow> length (M ! i) = m) \<Longrightarrow> is_mat n m M"
  by (simp add: is_mat_def list_all_length)

lemma same_shape_mat: "is_mat n m A \<Longrightarrow> is_mat n m B \<Longrightarrow> same_shape A B"
  unfolding same_shape_def by (rule nth_equalityI) (simp_all add: is_mat_def list_all_length)

lemma diag_nth: "i < length v \<Longrightarrow> j < length v \<Longrightarrow> diag v ! i ! j = (if i = j then v ! i else 0)"
  by (simp add: diag_def)

lemma is_mat_diag: "is_mat (length v) (length v) (diag v)"
  by (simp add: is_mat_def diag_def list_all_length)

section \<open>Symmetric matrices\<close>

lemma symmetric_iff:
  "symmetric A \<longleftrightarrow>
     is_square A \<and> (\<forall>i<length A. \<forall>j<length A. A ! i ! j = A ! j ! i)"
proof (cases "is_square A")
  case False
  then show ?thesis by (simp add: symmetric_def)
next
  case sq: True
  have nc: "ncols A = length A" using sq by (rule is_square_ncols)
  have "transpose_m A = A \<longleftrightarrow> (\<forall>i<length A. \<forall>j<length A. A ! i ! j = A ! j ! i)"
  proof
    assume eq: "transpose_m A = A"
    show "\<forall>i<length A. \<forall>j<length A. A ! i ! j = A ! j ! i"
    proof (intro allI impI)
      fix i j assume i: "i < length A" and j: "j < length A"
      have "A ! i ! j = transpose_m A ! i ! j" by (simp add: eq)
      also have "\<dots> = A ! j ! i" using i j by (simp add: transpose_m_def nc column_def)
      finally show "A ! i ! j = A ! j ! i" .
    qed
  next
    assume sym: "\<forall>i<length A. \<forall>j<length A. A ! i ! j = A ! j ! i"
    show "transpose_m A = A"
    proof (rule nth_equalityI)
      show "length (transpose_m A) = length A" by (simp add: transpose_m_def nc)
    next
      fix i assume "i < length (transpose_m A)"
      then have i: "i < length A" by (simp add: transpose_m_def nc)
      have "column A i = A ! i"
      proof (rule nth_equalityI)
        show "length (column A i) = length (A ! i)"
          using is_square_nth [OF sq i] by (simp add: column_def)
      next
        fix j assume "j < length (column A i)"
        then have j: "j < length A" by (simp add: column_def)
        show "column A i ! j = A ! i ! j" using sym i j by (simp add: column_def)
      qed
      then show "transpose_m A ! i = A ! i" using i by (simp add: transpose_m_def nc)
    qed
  qed
  with sq show ?thesis by (simp add: symmetric_def)
qed

lemma symmetric_nth: "symmetric A \<Longrightarrow> i < length A \<Longrightarrow> j < length A \<Longrightarrow> A ! i ! j = A ! j ! i"
  by (simp add: symmetric_iff)

lemma symmetric_square: "symmetric A \<Longrightarrow> is_square A"
  by (simp add: symmetric_def)

lemma symmetric_column:
  assumes "symmetric A" "j < length A"
  shows "column A j = A ! j"
proof -
  have "transpose_m A ! j = column A j"
    using assms is_square_ncols [OF symmetric_square [OF assms(1)]] by (simp add: transpose_m_def)
  with assms(1) show ?thesis by (simp add: symmetric_def)
qed

lemma symmetric_vecmat:
  assumes "symmetric A"
  shows "vecmat x A = matvec A x"
proof -
  have nc: "ncols A = length A" using assms by (simp add: is_square_ncols symmetric_square)
  show ?thesis
    by (rule nth_equalityI)
       (simp_all add: vecmat_def matvec_def nc symmetric_column [OF assms] vdot_commute)
qed

lemma vecmat_assoc:
  assumes lx: "length x = length M" and rect: "list_all (\<lambda>r. length r = ncols M) M"
    and ly: "length y = ncols M"
  shows "vdot (vecmat x M) y = vdot x (matvec M y)"
proof -
  let ?n = "length M" and ?m = "ncols M"
  have lr: "length (M ! i) = ?m" if "i < ?n" for i
    using rect that by (simp add: list_all_length)
  have col: "vdot x (column M j) = (\<Sum>i<?n. x ! i * M ! i ! j)" for j
    using vdot_sum [of x "column M j"] lx by (simp add: column_def)
  have row: "vdot (M ! i) y = (\<Sum>j<?m. M ! i ! j * y ! j)" if "i < ?n" for i
    using vdot_sum [of "M ! i" y] lr [OF that] ly by simp
  have "vdot (vecmat x M) y = (\<Sum>j<?m. vecmat x M ! j * y ! j)"
    using vdot_sum [of "vecmat x M" y] ly by simp
  also have "\<dots> = (\<Sum>j<?m. (\<Sum>i<?n. x ! i * M ! i ! j) * y ! j)"
    by (intro sum.cong) (simp_all add: vecmat_def col)
  also have "\<dots> = (\<Sum>j<?m. \<Sum>i<?n. x ! i * (M ! i ! j * y ! j))"
    by (simp add: sum_distrib_right mult.assoc)
  also have "\<dots> = (\<Sum>i<?n. \<Sum>j<?m. x ! i * (M ! i ! j * y ! j))"
    by (rule sum.swap)
  also have "\<dots> = (\<Sum>i<?n. x ! i * vdot (M ! i) y)"
    by (intro sum.cong) (simp_all add: row sum_distrib_left)
  also have "\<dots> = (\<Sum>i<?n. x ! i * matvec M y ! i)"
    by (intro sum.cong) (simp_all add: matvec_def)
  also have "\<dots> = vdot x (matvec M y)"
    using vdot_sum [of x "matvec M y"] lx by simp
  finally show ?thesis .
qed

lemma symmetric_form:
  assumes s: "symmetric A" and lx: "length x = length A" and ly: "length y = length A"
  shows "vdot (matvec A x) y = vdot (matvec A y) x"
proof -
  have nc: "ncols A = length A" using s by (simp add: is_square_ncols symmetric_square)
  have "vdot (matvec A x) y = vdot (vecmat x A) y" by (simp add: symmetric_vecmat [OF s])
  also have "\<dots> = vdot x (matvec A y)"
    using vecmat_assoc [OF lx square_rect [OF symmetric_square [OF s]]] ly nc by simp
  finally show ?thesis by (simp add: vdot_commute)
qed

section \<open>Triangular systems\<close>

lemma length_fwd_subst: "tri U \<Longrightarrow> length b = length U \<Longrightarrow> length (fwd_subst U b) = length U"
proof (induction U arbitrary: b)
  case Nil
  then show ?case by simp
next
  case (Cons row U)
  then obtain b1 bs where b: "b = b1 # bs" by (cases b) auto
  with Cons show ?case by simp
qed

lemma length_back_subst: "length y = length U \<Longrightarrow> length (back_subst U y) = length U"
proof (induction U arbitrary: y)
  case Nil
  then show ?case by simp
next
  case (Cons row U)
  then obtain y1 ys where "y = y1 # ys" by (cases y) auto
  with Cons show ?case by simp
qed

lemma length_umul: "length v = length U \<Longrightarrow> length (umul U v) = length U"
proof (induction U arbitrary: v)
  case Nil
  then show ?case by simp
next
  case (Cons row U)
  then obtain v1 vs where "v = v1 # vs" by (cases v) auto
  with Cons show ?case by simp
qed

lemma length_utmul: "tri U \<Longrightarrow> length w = length U \<Longrightarrow> length (utmul U w) = length U"
proof (induction U arbitrary: w)
  case Nil
  then show ?case by simp
next
  case (Cons row U)
  then obtain w1 ws where "w = w1 # ws" by (cases w) auto
  with Cons show ?case by simp
qed

lemma utmul_fwd_subst:
  "tri U \<Longrightarrow> length b = length U \<Longrightarrow> utmul U (fwd_subst U b) = b"
proof (induction U arbitrary: b)
  case Nil
  then show ?case by simp
next
  case (Cons row U)
  then obtain b1 bs where b: "b = b1 # bs" by (cases b) auto
  from Cons.prems obtain s u where row: "row = s # u" by (cases row) auto
  from Cons.prems row have s: "s \<noteq> 0" and lu: "length u = length U" and t: "tri U" by auto
  from Cons.prems b have lb: "length bs = length U" by simp
  let ?c = "map2 (\<lambda>p c. c - p * (b1 / s)) u bs"
  have lc: "length ?c = length U" using lu lb by simp
  have ih: "utmul U (fwd_subst U ?c) = ?c" using Cons.IH [OF t lc] .
  have "map2 (\<lambda>p t. p * (b1 / s) + t) u ?c = bs"
    using lu lb by (intro nth_equalityI) simp_all
  with ih s show ?case by (simp add: b row)
qed

lemma umul_back_subst:
  "tri U \<Longrightarrow> length y = length U \<Longrightarrow> umul U (back_subst U y) = y"
proof (induction U arbitrary: y)
  case Nil
  then show ?case by simp
next
  case (Cons row U)
  then obtain y1 ys where y: "y = y1 # ys" by (cases y) auto
  from Cons.prems obtain s u where row: "row = s # u" by (cases row) auto
  from Cons.prems row have s: "s \<noteq> 0" and t: "tri U" by auto
  from Cons.prems y have ly: "length ys = length U" by simp
  show ?case using Cons.IH [OF t ly] s by (simp add: y row)
qed

lemma fwd_subst_utmul:
  "tri U \<Longrightarrow> length w = length U \<Longrightarrow> fwd_subst U (utmul U w) = w"
proof (induction U arbitrary: w)
  case Nil
  then show ?case by simp
next
  case (Cons row U)
  then obtain w1 ws where w: "w = w1 # ws" by (cases w) auto
  from Cons.prems obtain s u where row: "row = s # u" by (cases row) auto
  from Cons.prems row w have s: "s \<noteq> 0" and lu: "length u = length U" and t: "tri U"
    and lw: "length ws = length U" by auto
  have lt: "length (utmul U ws) = length U" using length_utmul [OF t lw] .
  have "map2 (\<lambda>p c. c - p * w1) u (map2 (\<lambda>p t. p * w1 + t) u (utmul U ws)) = utmul U ws"
    using lu lt by (intro nth_equalityI) simp_all
  with Cons.IH [OF t lw] s show ?case by (simp add: w row)
qed

lemma back_subst_umul:
  "tri U \<Longrightarrow> length v = length U \<Longrightarrow> back_subst U (umul U v) = v"
proof (induction U arbitrary: v)
  case Nil
  then show ?case by simp
next
  case (Cons row U)
  then obtain v1 vs where v: "v = v1 # vs" by (cases v) auto
  from Cons.prems obtain s u where row: "row = s # u" by (cases row) auto
  from Cons.prems row v have s: "s \<noteq> 0" and t: "tri U" and lv: "length vs = length U" by auto
  show ?case using Cons.IH [OF t lv] s by (simp add: v row)
qed

lemma vdot_utmul:
  "tri U \<Longrightarrow> length v = length U \<Longrightarrow> length w = length U \<Longrightarrow>
   vdot v (utmul U w) = vdot (umul U v) w"
proof (induction U arbitrary: v w)
  case Nil
  then show ?case by simp
next
  case (Cons row U)
  then obtain v1 vs where v: "v = v1 # vs" by (cases v) auto
  from Cons.prems obtain w1 ws where w: "w = w1 # ws" by (cases w) auto
  from Cons.prems obtain s u where row: "row = s # u" by (cases row) auto
  from Cons.prems row v w have t: "tri U" and lu: "length u = length U"
    and lv: "length vs = length U" and lw: "length ws = length U" by auto
  have lt: "length (utmul U ws) = length U" using length_utmul [OF t lw] .
  have "vdot vs (map2 (\<lambda>p t. p * w1 + t) u (utmul U ws)) = w1 * vdot vs u + vdot vs (utmul U ws)"
    using vdot_axpy_add [of u "utmul U ws" vs w1] lu lt lv by simp
  with Cons.IH [OF t lv lw] show ?case
    by (simp add: v w row distrib_left distrib_right mult.assoc mult.left_commute vdot_commute [of vs u])
qed


lemma length_chol_solve:
  "tri U \<Longrightarrow> length b = length U \<Longrightarrow> length (chol_solve U b) = length U"
  by (simp add: chol_solve_def length_back_subst length_fwd_subst)

lemma vdot_chol_solve:
  assumes t: "tri U" and la: "length a = length U" and lb: "length b = length U"
  shows "vdot a (chol_solve U b) = vdot (fwd_subst U a) (fwd_subst U b)"
proof -
  have lfa: "length (fwd_subst U a) = length U" using length_fwd_subst [OF t la] .
  have lfb: "length (fwd_subst U b) = length U" using length_fwd_subst [OF t lb] .
  have lx: "length (chol_solve U b) = length U" using length_chol_solve [OF t lb] .
  have "vdot a (chol_solve U b) = vdot (chol_solve U b) (utmul U (fwd_subst U a))"
    by (simp add: utmul_fwd_subst [OF t la] vdot_commute)
  also have "\<dots> = vdot (umul U (chol_solve U b)) (fwd_subst U a)"
    using vdot_utmul [OF t lx lfa] .
  also have "\<dots> = vdot (fwd_subst U b) (fwd_subst U a)"
    by (simp add: chol_solve_def umul_back_subst [OF t lfb])
  finally show ?thesis by (simp add: vdot_commute)
qed

lemma vdot_chol_solve_commute:
  assumes "tri U" "length a = length U" "length b = length U"
  shows "vdot a (chol_solve U b) = vdot b (chol_solve U a)"
  using vdot_chol_solve [OF assms] vdot_chol_solve [OF assms(1,3,2)]
  by (simp add: vdot_commute)

lemma axpy_scale:
  "map2 (\<lambda>u t. t - u * (c * k)) us (map (\<lambda>v. c * v) ts)
     = map (\<lambda>v. c * v) (map2 (\<lambda>u t. t - u * k) us (ts :: real list))"
proof (induction us arbitrary: ts)
  case Nil
  show ?case by simp
next
  case (Cons u us)
  show ?case by (cases ts) (simp_all add: Cons.IH right_diff_distrib mult.left_commute)
qed

lemma fwd_subst_scale:
  "fwd_subst U (map (\<lambda>v. c * v) b) = map (\<lambda>v. c * v) (fwd_subst U b)"
proof (induction U arbitrary: b)
  case Nil
  show ?case by simp
next
  case (Cons row U)
  show ?case
  proof (cases b)
    case Nil
    then show ?thesis by simp
  next
    case (Cons b1 bs)
    have "fwd_subst U (map2 (\<lambda>u t. t - u * (c * (b1 / hd row))) (tl row) (map (\<lambda>v. c * v) bs))
            = map (\<lambda>v. c * v) (fwd_subst U (map2 (\<lambda>u t. t - u * (b1 / hd row)) (tl row) bs))"
      by (simp only: axpy_scale Cons.IH)
    then show ?thesis by (simp add: Cons)
  qed
qed

lemma back_subst_scale:
  "back_subst U (map (\<lambda>v. c * v) y) = map (\<lambda>v. c * v) (back_subst U y)"
proof (induction U arbitrary: y)
  case Nil
  show ?case by simp
next
  case (Cons row U)
  show ?case
  proof (cases y)
    case Nil
    then show ?thesis by simp
  next
    case (Cons y1 ys)
    have "(c * y1 - vdot (tl row) (map (\<lambda>v. c * v) (back_subst U ys))) / hd row
            = c * ((y1 - vdot (tl row) (back_subst U ys)) / hd row)"
      by (simp add: vdot_scale_right right_diff_distrib)
    then show ?thesis using Cons.IH [of ys] by (simp add: Cons)
  qed
qed

lemma chol_solve_scale:
  "chol_solve U (map (\<lambda>v. c * v) b) = map (\<lambda>v. c * v) (chol_solve U b)"
  by (simp add: chol_solve_def fwd_subst_scale back_subst_scale)

section \<open>The elimination step\<close>

lemma length_urow: "length (urow row) = length row - 1"
  by (simp add: urow_def)

lemma length_schur: "length (schur u rows) = min (length u) (length rows)"
  by (simp add: schur_def)

lemma nth_schur:
  "i < length u \<Longrightarrow> i < length rows \<Longrightarrow>
   schur u rows ! i = map2 (\<lambda>uj b. b - u ! i * uj) u (tl (rows ! i))"
  by (simp add: schur_def)

lemma symmetric_schur:
  assumes sym: "symmetric (row # rows)"
  shows "symmetric (schur (urow row) rows)"
proof -
  let ?A = "row # rows"
  let ?m = "length rows"
  let ?u = "urow row"
  have sq: "is_square ?A" using sym by (rule symmetric_square)
  have lrow: "length row = Suc ?m" using is_square_nth [OF sq, of 0] by simp
  have lrows: "length (rows ! i) = Suc ?m" if "i < ?m" for i
    using is_square_nth [OF sq, of "Suc i"] that by simp
  have lu: "length ?u = ?m" by (simp add: length_urow lrow)
  have ls: "length (schur ?u rows) = ?m" by (simp add: length_schur lu)
  have row_i: "schur ?u rows ! i = map2 (\<lambda>uj b. b - ?u ! i * uj) ?u (tl (rows ! i))"
    if "i < ?m" for i using that by (simp add: nth_schur lu)
  have lrow_i: "length (schur ?u rows ! i) = ?m" if "i < ?m" for i
    using that by (simp add: row_i lu lrows)
  have ent: "schur ?u rows ! i ! j = rows ! i ! Suc j - ?u ! i * ?u ! j"
    if "i < ?m" "j < ?m" for i j
    using that by (simp add: row_i lu lrows nth_tl)
  have symrows: "rows ! i ! Suc j = rows ! j ! Suc i" if "i < ?m" "j < ?m" for i j
    using symmetric_nth [OF sym, of "Suc i" "Suc j"] that by simp
  show ?thesis
    unfolding symmetric_iff
  proof (intro conjI allI impI)
    show "is_square (schur ?u rows)"
      by (simp add: is_square_def list_all_length ls lrow_i)
  next
    fix i j assume "i < length (schur ?u rows)" "j < length (schur ?u rows)"
    then have i: "i < ?m" and j: "j < ?m" by (simp_all add: ls)
    show "schur ?u rows ! i ! j = schur ?u rows ! j ! i"
      by (simp add: ent i j symrows [OF i j])
  qed
qed

lemma is_square_schur:
  assumes sq: "is_square (row # rows)"
  shows "is_square (schur (urow row) rows)"
proof -
  let ?m = "length rows"
  let ?u = "urow row"
  have lrow: "length row = Suc ?m" using is_square_nth [OF sq, of 0] by simp
  have lrows: "length (rows ! i) = Suc ?m" if "i < ?m" for i
    using is_square_nth [OF sq, of "Suc i"] that by simp
  have lu: "length ?u = ?m" by (simp add: length_urow lrow)
  have ls: "length (schur ?u rows) = ?m" by (simp add: length_schur lu)
  have "length (schur ?u rows ! i) = ?m" if "i < ?m" for i
    using that by (simp add: nth_schur lu lrows)
  then show ?thesis by (simp add: is_square_def list_all_length ls)
qed

lemma schur_matvec:
  assumes sym: "symmetric (row # rows)" and pos: "0 < hd row"
    and lv: "length vs = length rows"
  shows "vdot row (v1 # vs) = sqrt (hd row) * (sqrt (hd row) * v1 + vdot (urow row) vs)"
    and "matvec rows (v1 # vs)
           = map2 (\<lambda>p t. p * (sqrt (hd row) * v1 + vdot (urow row) vs) + t)
               (urow row) (matvec (schur (urow row) rows) vs)"
proof -
  let ?m = "length rows"
  let ?u = "urow row"
  let ?s = "sqrt (hd row)"
  let ?w1 = "?s * v1 + vdot ?u vs"
  let ?B = "schur ?u rows"
  have sq: "is_square (row # rows)" using sym by (rule symmetric_square)
  have lrow: "length row = Suc ?m" using is_square_nth [OF sq, of 0] by simp
  then obtain a r where row: "row = a # r" by (cases row) auto
  have lr: "length r = ?m" using lrow row by simp
  have a: "0 < a" using pos row by simp
  have s: "?s * ?s = a" "?s \<noteq> 0" using a row by simp_all
  have lrows: "length (rows ! i) = Suc ?m" if "i < ?m" for i
    using is_square_nth [OF sq, of "Suc i"] that by simp
  have lu: "length ?u = ?m" by (simp add: length_urow lrow)
  have su: "map (\<lambda>x. ?s * x) ?u = r"
    using s by (simp add: urow_def row map_idI)
  have sur: "?s * vdot ?u vs = vdot r vs"
    using vdot_scale_left [of ?s ?u vs] su by simp
  show "vdot row (v1 # vs) = ?s * ?w1"
    using s sur by (simp add: row distrib_left mult.assoc [symmetric])
  have lB: "length (matvec ?B vs) = ?m" by (simp add: length_schur lu)
  show "matvec rows (v1 # vs) = map2 (\<lambda>p t. p * ?w1 + t) ?u (matvec ?B vs)"
  proof (rule nth_equalityI)
    show "length (matvec rows (v1 # vs)) = length (map2 (\<lambda>p t. p * ?w1 + t) ?u (matvec ?B vs))"
      by (simp add: lu length_schur)
  next
    fix i assume "i < length (matvec rows (v1 # vs))"
    then have i: "i < ?m" by simp
    obtain c bs where ri: "rows ! i = c # bs" using lrows [OF i] by (cases "rows ! i") auto
    have lbs: "length bs = ?m" using lrows [OF i] ri by simp
    have "c = (row # rows) ! Suc i ! 0" by (simp add: ri)
    also have "\<dots> = (row # rows) ! 0 ! Suc i"
      using symmetric_nth [OF sym, of "Suc i" 0] i by simp
    finally have c: "c = r ! i" by (simp add: row)
    have ui: "?s * ?u ! i = r ! i"
      using s i lr by (simp add: urow_def row)
    have "matvec ?B vs ! i = vdot (map2 (\<lambda>uj b. b - ?u ! i * uj) ?u bs) vs"
      using i lu by (simp add: matvec_def length_schur nth_schur ri)
    also have "\<dots> = vdot bs vs - ?u ! i * vdot ?u vs"
      using vdot_axpy_left [of ?u bs vs "?u ! i"] lu lbs lv by simp
    finally have sch: "matvec ?B vs ! i = vdot bs vs - ?u ! i * vdot ?u vs" .
    have "?u ! i * ?w1 + matvec ?B vs ! i = (?s * ?u ! i) * v1 + vdot bs vs"
      by (simp add: sch distrib_left mult.assoc mult.left_commute mult.commute)
    also have "\<dots> = c * v1 + vdot bs vs" by (simp add: ui c)
    finally show "matvec rows (v1 # vs) ! i = map2 (\<lambda>p t. p * ?w1 + t) ?u (matvec ?B vs) ! i"
      using i lB by (simp add: lu matvec_def ri del: length_map)
  qed
qed

lemma schur_quadratic:
  assumes sym: "symmetric (row # rows)" and pos: "0 < hd row"
    and lv: "length vs = length rows"
  shows "vdot (v1 # vs) (matvec (row # rows) (v1 # vs))
           = (sqrt (hd row) * v1 + vdot (urow row) vs)\<^sup>2
             + vdot vs (matvec (schur (urow row) rows) vs)"
proof -
  let ?u = "urow row"
  let ?s = "sqrt (hd row)"
  let ?w1 = "?s * v1 + vdot ?u vs"
  let ?B = "schur ?u rows"
  have sq: "is_square (row # rows)" using sym by (rule symmetric_square)
  have lrow: "length row = Suc (length rows)" using is_square_nth [OF sq, of 0] by simp
  have lu: "length ?u = length rows" by (simp add: length_urow lrow)
  have lB: "length (matvec ?B vs) = length rows" by (simp add: length_schur lu)
  have "vdot (v1 # vs) (matvec (row # rows) (v1 # vs))
          = v1 * vdot row (v1 # vs) + vdot vs (matvec rows (v1 # vs))"
    by (simp add: matvec_def)
  also have "\<dots> = v1 * (?s * ?w1) + vdot vs (map2 (\<lambda>p t. p * ?w1 + t) ?u (matvec ?B vs))"
    by (simp only: schur_matvec [OF sym pos lv])
  also have "vdot vs (map2 (\<lambda>p t. p * ?w1 + t) ?u (matvec ?B vs))
               = ?w1 * vdot vs ?u + vdot vs (matvec ?B vs)"
    using vdot_axpy_add [of ?u "matvec ?B vs" vs ?w1] lu lB lv by simp
  finally show ?thesis
    by (simp add: power2_eq_square algebra_simps vdot_commute [of vs ?u])
qed

section \<open>The Cholesky factor\<close>

lemma chol_step:
  assumes sym: "symmetric (row # rows)"
    and pos: "0 < hd row"
    and t: "tri U" and lU: "length U = length rows"
    and ih: "\<And>v. length v = length rows \<Longrightarrow>
               utmul U (umul U v) = matvec (schur (urow row) rows) v"
    and lv: "length v = Suc (length rows)"
  shows "utmul ((sqrt (hd row) # urow row) # U) (umul ((sqrt (hd row) # urow row) # U) v)
         = matvec (row # rows) v"
proof -
  obtain v1 vs where v: "v = v1 # vs" using lv by (cases v) auto
  have lvs: "length vs = length rows" using lv v by simp
  let ?w1 = "sqrt (hd row) * v1 + vdot (urow row) vs"
  have "utmul ((sqrt (hd row) # urow row) # U) (umul ((sqrt (hd row) # urow row) # U) v)
          = (sqrt (hd row) * ?w1)
            # map2 (\<lambda>p t. p * ?w1 + t) (urow row) (utmul U (umul U vs))"
    by (simp add: v)
  also have "\<dots> = vdot row (v1 # vs) # matvec rows (v1 # vs)"
    by (simp only: ih [OF lvs] schur_matvec [OF sym pos lvs])
  also have "\<dots> = matvec (row # rows) v"
    by (simp add: matvec_def v)
  finally show ?thesis .
qed

lemma chol_upper_factor:
  "chol_upper A = Inr U \<Longrightarrow> symmetric A \<Longrightarrow>
   tri U \<and> length U = length A \<and>
   (\<forall>v. length v = length A \<longrightarrow> utmul U (umul U v) = matvec A v)"
proof (induction A arbitrary: U rule: chol_upper.induct)
  case 1
  then show ?case by (simp add: matvec_def)
next
  case (2 row rows)
  from "2.prems"(1) have ne: "row \<noteq> []" and pos: "0 < hd row"
    by (auto split: if_splits)
  from "2.prems"(1) ne pos obtain U' where
    U': "chol_upper (schur (urow row) rows) = Inr U'"
    and U: "U = (sqrt (hd row) # urow row) # U'"
    by (auto simp: ebind_def split: sum.splits)
  have sym': "symmetric (schur (urow row) rows)" using "2.prems"(2) by (rule symmetric_schur)
  have sq: "is_square (row # rows)" using "2.prems"(2) by (rule symmetric_square)
  have lrow: "length row = Suc (length rows)" using is_square_nth [OF sq, of 0] by simp
  have ls: "length (schur (urow row) rows) = length rows"
    by (simp add: length_schur length_urow lrow)
  from "2.IH" [OF _ _ U' sym'] ne pos
  have t: "tri U'" and lU: "length U' = length rows"
    and ih: "\<And>v. length v = length rows \<Longrightarrow>
               utmul U' (umul U' v) = matvec (schur (urow row) rows) v"
    by (simp_all add: ls)
  have "tri U" using t lU pos by (simp add: U length_urow lrow)
  moreover have "length U = length (row # rows)" using lU by (simp add: U)
  moreover have "\<forall>v. length v = length (row # rows) \<longrightarrow> utmul U (umul U v) = matvec (row # rows) v"
    using chol_step [OF "2.prems"(2) pos t lU ih] by (simp add: U)
  ultimately show ?case by blast
qed

lemma chol_upper_tri:
  "chol_upper A = Inr U \<Longrightarrow> is_square A \<Longrightarrow> tri U \<and> length U = length A"
proof (induction A arbitrary: U rule: chol_upper.induct)
  case 1
  then show ?case by simp
next
  case (2 row rows)
  from "2.prems"(1) have ne: "row \<noteq> []" and pos: "0 < hd row"
    by (auto split: if_splits)
  from "2.prems"(1) ne pos obtain U' where
    U': "chol_upper (schur (urow row) rows) = Inr U'"
    and U: "U = (sqrt (hd row) # urow row) # U'"
    by (auto simp: ebind_def split: sum.splits)
  have lrow: "length row = Suc (length rows)" using is_square_nth [OF "2.prems"(2), of 0] by simp
  have ls: "length (schur (urow row) rows) = length rows"
    by (simp add: length_schur length_urow lrow)
  from "2.IH" [OF _ _ U' is_square_schur [OF "2.prems"(2)]] ne pos
  have "tri U'" "length U' = length rows" by (simp_all add: ls)
  then show ?case using pos by (simp add: U length_urow lrow)
qed

lemma cho_factor_tri:
  "cho_factor c A = Inr U \<Longrightarrow> tri U \<and> length U = length A \<and> is_square A \<and> chol_upper A = Inr U"
  using chol_upper_tri [of A U] by (auto simp: cho_factor_def split: if_splits)

lemma cho_factor_flag: "cho_factor a A = cho_factor b A"
  by (simp add: cho_factor_def)

lemma chol_solve_correct:
  assumes "chol_upper A = Inr U" "symmetric A" "length b = length A"
  shows "matvec A (chol_solve U b) = b"
proof -
  from chol_upper_factor [OF assms(1,2)]
  have t: "tri U" and l: "length U = length A"
    and f: "\<And>v. length v = length A \<Longrightarrow> utmul U (umul U v) = matvec A v" by auto
  have lb: "length b = length U" using assms(3) l by simp
  have lf: "length (fwd_subst U b) = length U" using length_fwd_subst [OF t lb] .
  have "length (chol_solve U b) = length A" using length_chol_solve [OF t lb] l by simp
  then have "matvec A (chol_solve U b) = utmul U (umul U (chol_solve U b))" by (simp add: f)
  also have "\<dots> = utmul U (fwd_subst U b)"
    by (simp add: chol_solve_def umul_back_subst [OF t lf])
  also have "\<dots> = b" using utmul_fwd_subst [OF t lb] .
  finally show ?thesis .
qed

lemma chol_solve_unique:
  assumes "chol_upper A = Inr U" "symmetric A" "length z = length A" "matvec A z = b"
  shows "chol_solve U b = z"
proof -
  from chol_upper_factor [OF assms(1,2)]
  have t: "tri U" and l: "length U = length A"
    and f: "\<And>v. length v = length A \<Longrightarrow> utmul U (umul U v) = matvec A v" by auto
  have lz: "length z = length U" using assms(3) l by simp
  have lu: "length (umul U z) = length U" using length_umul [OF lz] .
  have "b = utmul U (umul U z)" using f [OF assms(3)] assms(4) by simp
  then have "chol_solve U b = back_subst U (fwd_subst U (utmul U (umul U z)))"
    by (simp add: chol_solve_def)
  also have "\<dots> = back_subst U (umul U z)" by (simp add: fwd_subst_utmul [OF t lu])
  also have "\<dots> = z" using back_subst_umul [OF t lz] .
  finally show ?thesis .
qed



lemma chol_upper_complete:
  "symmetric A \<Longrightarrow>
   (\<And>v. length v = length A \<Longrightarrow> v \<noteq> replicate (length A) 0 \<Longrightarrow> 0 < vdot v (matvec A v)) \<Longrightarrow>
   \<exists>U. chol_upper A = Inr U"
proof (induction A rule: chol_upper.induct)
  case 1
  show ?case by simp
next
  case (2 row rows)
  let ?m = "length rows"
  let ?u = "urow row"
  let ?s = "sqrt (hd row)"
  let ?B = "schur ?u rows"
  have sym: "symmetric (row # rows)" by fact
  have sq: "is_square (row # rows)" using sym by (rule symmetric_square)
  have lrow: "length row = Suc ?m" using is_square_nth [OF sq, of 0] by simp
  then have ne: "row \<noteq> []" by auto
  have lu: "length ?u = ?m" by (simp add: length_urow lrow)
  have lB: "length ?B = ?m" by (simp add: length_schur lu)
  have pos: "0 < hd row"
  proof -
    have "0 < vdot (1 # replicate ?m 0) (matvec (row # rows) (1 # replicate ?m 0))"
      by (rule "2.prems"(2)) simp_all
    moreover have "vdot row (1 # replicate ?m 0) = hd row"
      using ne by (cases row) simp_all
    ultimately show ?thesis by (simp add: matvec_def)
  qed
  then have s: "?s \<noteq> 0" by simp
  have "\<exists>U. chol_upper ?B = Inr U"
  proof (rule "2.IH")
    show "row \<noteq> []" by (rule ne)
    show "\<not> hd row \<le> 0" using pos by simp
    show "symmetric ?B" using sym by (rule symmetric_schur)
  next
    fix vs :: vec
    assume lv: "length vs = length ?B" and nz: "vs \<noteq> replicate (length ?B) 0"
    have lv': "length vs = ?m" using lv lB by simp
    let ?v1 = "- vdot ?u vs / ?s"
    have z: "?s * ?v1 + vdot ?u vs = 0" using s by simp
    have "0 < vdot (?v1 # vs) (matvec (row # rows) (?v1 # vs))"
      using nz lB by (intro "2.prems"(2)) (simp_all add: lv')
    also have "\<dots> = vdot vs (matvec ?B vs)"
      unfolding schur_quadratic [OF sym pos lv'] z by simp
    finally show "0 < vdot vs (matvec ?B vs)" .
  qed
  then obtain U where "chol_upper ?B = Inr U" ..
  then show ?case using ne pos by simp
qed

lemma cho_factor_complete:
  assumes "symmetric A"
    and "\<And>v. length v = length A \<Longrightarrow> v \<noteq> replicate (length A) 0 \<Longrightarrow> 0 < vdot v (matvec A v)"
  shows "\<exists>U. cho_factor c A = Inr U"
  using chol_upper_complete [OF assms] symmetric_square [OF assms(1)]
  by (simp add: cho_factor_def)

section \<open>Lemmas on innerProduct_rr\<close>

lemma none_guard_None [simp]: "none_guard None None = Inr True"
  by (simp add: none_guard_def py_and_def eq_None_def truth_def)

lemma innerProduct_rr_default:
  assumes lx: "length x = length Nmat" and ly: "length y = length Nmat"
    and sq: "is_square Nmat"
  shows "innerProduct_rr x y Nmat Tmat Sigma_m None None brave =
     (if ncols (transpose_m Tmat) = length Nmat
      then ebind (cho_factor True Sigma_m) (\<lambda>U.
             if length U = length (transpose_m Tmat)
             then Inr (vdot (vecmat x Nmat) y
                       - vdot (matvec (transpose_m Tmat) (matvec Nmat x))
                           (chol_solve U (matvec (transpose_m Tmat) (matvec Nmat y))))
             else Inl ValueError)
      else Inl ValueError)"
proof -
  have nc: "ncols Nmat = length Nmat" using sq by (rule is_square_ncols)
  have fs: "factor_and_solve c Sigma_m (Some b) =
              ebind (cho_factor True Sigma_m) (\<lambda>U. cho_solve c U b)" for c b
    by (simp add: factor_and_solve_def cho_factor_flag [of c _ True])
  show ?thesis
  proof (cases "cho_factor True Sigma_m")
    case (Inl e)
    then show ?thesis
      by (simp add: innerProduct_rr_def dot_vm_def dot_vv_def dot_mv_def nrows_def nc lx ly fs)
  next
    case (Inr U)
    from cho_factor_tri [OF Inr] have t: "tri U" by simp
    show ?thesis
      using Inr length_chol_solve [OF t]
      by (simp add: innerProduct_rr_def dot_vm_def dot_vv_def dot_mv_def nrows_def nc lx ly fs
          cho_solve_def)
  qed
qed

lemma innerProduct_rr_bad_rows:
  "length x \<noteq> length Nmat \<Longrightarrow>
   innerProduct_rr x y Nmat Tmat Sigma_m TNx TNy brave = Inl ValueError"
  by (simp add: innerProduct_rr_def dot_vm_def nrows_def)

lemma innerProduct_rr_length_mismatch:
  assumes "length x \<noteq> length y"
  shows "innerProduct_rr x y Nmat Tmat Sigma_m TNx TNy brave = Inl ValueError"
  using assms
  by (simp add: innerProduct_rr_def dot_vm_def dot_vv_def dot_mv_def)

lemma factor_and_solve_scale:
  "factor_and_solve k S (Some (map (\<lambda>v. c * v) b))
     = map_sum id (map (\<lambda>v. c * v)) (factor_and_solve k S (Some b))"
  by (cases "cho_factor k S") (simp_all add: factor_and_solve_def cho_solve_def chol_solve_scale)

lemma innerProduct_rr_scale:
  "innerProduct_rr x (map (\<lambda>v. c * v) y) Nmat Tmat Sigma_m None None brave
     = map_sum id (\<lambda>v. c * v) (innerProduct_rr x y Nmat Tmat Sigma_m None None brave)"
proof -
  let ?Tt = "transpose_m Tmat"
  let ?b = "matvec ?Tt (matvec Nmat y)"
  have fs: "factor_and_solve k Sigma_m (Some (map (\<lambda>v. c * v) ?b))
     = map_sum id (map (\<lambda>v. c * v)) (factor_and_solve k Sigma_m (Some ?b))" for k
    by (rule factor_and_solve_scale)
  have tail: "ebind (map_sum id (map (\<lambda>v. c * v)) m)
                (\<lambda>z. ebind (dot_vv a z) (\<lambda>d. Inr (c * q - d)))
              = map_sum id (\<lambda>v. c * v) (ebind m (\<lambda>z. ebind (dot_vv a z) (\<lambda>d. Inr (q - d))))"
    for m a q
    by (cases m) (simp_all add: dot_vv_def vdot_scale_right right_diff_distrib)
  show ?thesis
    by (simp add: innerProduct_rr_def dot_vm_def dot_vv_def [of "vecmat x Nmat"] dot_mv_def
        matvec_scale vdot_scale_right fs tail)
qed

section \<open>Lemmas on the two loops of compute_Fe\<close>

lemma form_Sigma_error: "form_Sigma TNT phiinv = Inl e \<Longrightarrow> e = ValueError"
  by (auto simp: form_Sigma_def mat_add_def split: if_splits)

lemma form_Sigma_nth:
  assumes f: "form_Sigma TNT phiinv = Inr Sigma_m" and l: "length Sigma_m = m"
    and T: "is_mat m m TNT"
    and P: "case phiinv of Arr1 v \<Rightarrow> length v = m | Arr2 P \<Rightarrow> is_mat m m P"
    and i: "i < m" and j: "j < m"
  shows "Sigma_m ! i ! j =
     TNT ! i ! j + (case phiinv of Arr1 v \<Rightarrow> (if i = j then v ! i else 0) | Arr2 P \<Rightarrow> P ! i ! j)"
proof -
  let ?P = "case phiinv of Arr1 v \<Rightarrow> diag v | Arr2 P \<Rightarrow> P"
  have Pm: "is_mat m m ?P" using P is_mat_diag by (cases phiinv) auto
  have S: "Sigma_m = map2 (map2 (+)) TNT ?P"
    using f by (simp add: form_Sigma_def mat_add_def split: if_splits)
  have "Sigma_m ! i ! j = TNT ! i ! j + ?P ! i ! j"
    using i j is_mat_nth [OF T i] is_mat_nth [OF Pm i] is_mat_length [OF T] is_mat_length [OF Pm]
    by (simp add: S)
  moreover have "?P ! i ! j =
      (case phiinv of Arr1 v \<Rightarrow> (if i = j then v ! i else 0) | Arr2 P \<Rightarrow> P ! i ! j)"
    using P i j by (cases phiinv) (simp_all add: diag_nth)
  ultimately show ?thesis by simp
qed

lemma templates_nth_length: "i < 4 \<Longrightarrow> length (templates f0 ts ! i) = length ts"
proof -
  assume "i < 4"
  then have "i = 0 \<or> i = 1 \<or> i = 2 \<or> i = 3" by auto
  then show ?thesis by (auto simp: templates_def)
qed

lemma pulsar_NM_length_mismatch:
  assumes "length (toas psr) \<noteq> length (residuals psr)"
  shows "pulsar_NM f0 brave psr Nmat TNT phiinv T = Inl ValueError"
proof (cases "form_Sigma TNT phiinv")
  case (Inl e)
  with form_Sigma_error [OF Inl] show ?thesis by (simp add: pulsar_NM_def)
next
  case (Inr S)
  have "innerProduct_rr (templates f0 (toas psr) ! 0) (residuals psr) Nmat T S None None brave
          = Inl ValueError"
    using assms by (intro innerProduct_rr_length_mismatch) (simp add: templates_nth_length)
  with Inr show ?thesis by (simp add: pulsar_NM_def)
qed

lemma pulsar_NM_shape:
  assumes "pulsar_NM f0 brave psr Nmat TNT phiinv T = Inr (Nrow, Mrow)"
  shows "length Nrow = 4 \<and> is_mat 4 4 Mrow"
proof -
  let ?ip = "\<lambda>jj kk. innerProduct_rr (templates f0 (toas psr) ! jj) (templates f0 (toas psr) ! kk)
                  Nmat T"
  from assms obtain S a b c d where
    N: "Nrow = [a, b, c, d]" and M: "emap (\<lambda>jj. emap (\<lambda>kk. ?ip jj kk S None None brave) [0..<4]) [0..<4] = Inr Mrow"
    by (auto simp: pulsar_NM_def ebind_def split: sum.splits)
  have l: "length Mrow = 4" using emap_Inr_length [OF M] by simp
  have "length (Mrow ! i) = 4" if "i < 4" for i
    using emap_Inr_nth [OF M, of i] that emap_Inr_length [of _ "[0..<4]" "Mrow ! i"] by simp
  with l N show ?thesis by (simp add: is_mat_def list_all_length)
qed

lemma all_NM_shape:
  assumes "all_NM f0 brave ps Nms TNTs phiinvs Ts = Inr (N, M)"
  shows "length N = length ps \<and> length M = length ps
       \<and> (\<forall>p<length ps. length (N ! p) = 4 \<and> is_mat 4 4 (M ! p))"
proof -
  let ?zs = "zip ps (zip Nms (zip TNTs (zip phiinvs Ts)))"
  let ?f = "\<lambda>(psr, Nmat, TNT, phiinv, T). pulsar_NM f0 brave psr Nmat TNT phiinv T"
  from assms obtain res where res: "emap ?f ?zs = Inr res"
    and N: "N = map fst res @ replicate (length ps - length res) (replicate 4 0)"
    and M: "M = map snd res @ replicate (length ps - length res) (replicate 4 (replicate 4 0))"
    by (auto simp: all_NM_def ebind_def split: sum.splits)
  have lr: "length res = length ?zs" using emap_Inr_length [OF res] .
  then have le: "length res \<le> length ps" by simp
  have sh: "length (fst (res ! i)) = 4 \<and> is_mat 4 4 (snd (res ! i))" if "i < length res" for i
  proof -
    obtain psr Nmat TNT phiinv T where z: "?zs ! i = (psr, Nmat, TNT, phiinv, T)"
      by (metis prod_cases5)
    have "?f (?zs ! i) = Inr (res ! i)" using emap_Inr_nth [OF res, of i] that lr by simp
    then have "pulsar_NM f0 brave psr Nmat TNT phiinv T = Inr (fst (res ! i), snd (res ! i))"
      by (simp add: z)
    then show ?thesis by (rule pulsar_NM_shape)
  qed
  have z4: "is_mat 4 4 (replicate 4 (replicate 4 0))" by (simp add: is_mat_def list_all_length)
  have "length (N ! p) = 4 \<and> is_mat 4 4 (M ! p)" if "p < length ps" for p
    using that sh [of p] z4 by (simp add: N M nth_append)
  moreover have "length N = length ps" "length M = length ps" using le by (simp_all add: N M)
  ultimately show ?thesis by simp
qed

lemma pulsar_NM_scale:
  "pulsar_NM f0 brave (psr\<lparr>residuals := map (\<lambda>r. c * r) (residuals psr)\<rparr>) Nmat TNT phiinv T
     = map_sum id (\<lambda>(N, M). (map (\<lambda>v. c * v) N, M))
         (pulsar_NM f0 brave psr Nmat TNT phiinv T)"
  by (auto simp: pulsar_NM_def innerProduct_rr_scale ebind_def split: sum.splits)

lemma all_NM_scale:
  "all_NM f0 brave (map (\<lambda>p. p\<lparr>residuals := map (\<lambda>r. c * r) (residuals p)\<rparr>) ps)
       Nms TNTs phiinvs Ts
     = map_sum id (\<lambda>(N, M). (map (map (\<lambda>v. c * v)) N, M))
         (all_NM f0 brave ps Nms TNTs phiinvs Ts)"
proof -
  let ?sc = "\<lambda>p. p\<lparr>residuals := map (\<lambda>r. c * r) (residuals p)\<rparr>"
  let ?rest = "zip Nms (zip TNTs (zip phiinvs Ts))"
  let ?f = "\<lambda>(psr, Nmat, TNT, phiinv, T). pulsar_NM f0 brave psr Nmat TNT phiinv T"
  let ?h = "\<lambda>(N, M). (map (\<lambda>v. c * v) N, M :: mat)"
  have z: "zip (map ?sc ps) ?rest = map (\<lambda>(p, r). (?sc p, r)) (zip ps ?rest)"
    by (simp add: zip_map1)
  have "emap ?f (zip (map ?sc ps) ?rest) = emap (\<lambda>x. ?f ((\<lambda>(p, r). (?sc p, r)) x)) (zip ps ?rest)"
    unfolding z by (rule emap_map)
  also have "\<dots> = map_sum id (map ?h) (emap ?f (zip ps ?rest))"
    by (rule emap_map_sum) (auto simp: pulsar_NM_scale)
  finally have e: "emap ?f (zip (map ?sc ps) ?rest) = map_sum id (map ?h) (emap ?f (zip ps ?rest))" .
  have f: "map fst (map ?h res) = map (map (\<lambda>v. c * v)) (map fst res)"
    "map snd (map ?h res) = map snd res" for res
    by (simp_all add: split_def)
  show ?thesis
    unfolding all_NM_def e
    by (cases "emap ?f (zip ps ?rest)") (auto simp: split_def)
qed

lemma less4: "i < (4::nat) \<Longrightarrow> i = 0 \<or> i = 1 \<or> i = 2 \<or> i = 3"
  by auto

lemma scale_N_nth:
  assumes "length r = 4" "i < 4"
  shows "scale_N F_p F_c r ! i = [F_p, F_p, F_c, F_c] ! i * r ! i"
  using assms by (simp add: scale_N_def)

lemma scale_N_length: "length r = 4 \<Longrightarrow> length (scale_N F_p F_c r) = 4"
  by (simp add: scale_N_def)

lemma scale_M_nth:
  assumes m: "is_mat 4 4 m" and i: "i < 4" and j: "j < 4"
  shows "scale_M F_p F_c m ! i ! j
           = [F_p, F_p, F_c, F_c] ! i * [F_p, F_p, F_c, F_c] ! j * m ! i ! j"
proof -
  let ?P = "[[F_p ^ 2, F_p ^ 2, F_p * F_c, F_p * F_c],
             [F_p ^ 2, F_p ^ 2, F_p * F_c, F_p * F_c],
             [F_p * F_c, F_p * F_c, F_c ^ 2, F_c ^ 2],
             [F_p * F_c, F_p * F_c, F_c ^ 2, F_c ^ 2]]"
  have lm: "length m = 4" and lr: "length (m ! i) = 4"
    using m i by (simp_all add: is_mat_def list_all_length)
  have lP: "length (?P ! i) = 4" using less4 [OF i] by auto
  have pat: "?P ! i ! j = [F_p, F_p, F_c, F_c] ! i * [F_p, F_p, F_c, F_c] ! j"
    using less4 [OF i] less4 [OF j] by (auto simp: power2_eq_square)
  have "scale_M F_p F_c m ! i ! j = m ! i ! j * ?P ! i ! j"
    using i j lm lr lP by (simp add: scale_M_def)
  with pat show ?thesis by simp
qed

lemma sky_point_spec:
  assumes lN: "length N = length ps" and lM: "length M = length ps"
    and sh: "\<forall>p<length ps. length (N ! p) = 4 \<and> is_mat 4 4 (M ! p)"
    and pinv: "\<forall>A. is_mat 4 4 A \<longrightarrow> is_mat 4 4 (pinv A)"
  shows "sky_point antenna pinv ps N M [theta, phi]
           = Inr (Fe_spec antenna pinv ps N M theta phi)"
proof -
  let ?zs = "zip ps (zip N M)"
  let ?g = "\<lambda>(psr, Nrow, Mrow). case antenna (pos psr) theta phi of
              (F_p, F_c, _) \<Rightarrow> (scale_N F_p F_c Nrow, scale_M F_p F_c Mrow)"
  let ?sc = "map ?g ?zs"
  have lz: "length ?zs = length ps" using lN lM by simp
  have e: "emap (scale_psr antenna [theta, phi]) ?zs = Inr ?sc"
    by (rule emap_total) (auto simp: scale_psr_def split: prod.splits)
  have g: "?g (?zs ! p) = (case antenna (pos (ps ! p)) theta phi of
              (F_p, F_c, _) \<Rightarrow> (scale_N F_p F_c (N ! p), scale_M F_p F_c (M ! p)))"
    if "p < length ps" for p using that lN lM by simp
  have Ns: "sum_N (map fst ?sc) = N_sum_spec antenna ps N theta phi"
    unfolding sum_N_def N_sum_spec_def
  proof (rule map_cong [OF refl])
    fix i assume "i \<in> set [0..<4]"
    then have i: "i < 4" by simp
    have "map (\<lambda>r. r ! i) (map fst ?sc)
            = map (\<lambda>p. weights antenna (ps ! p) theta phi ! i * N ! p ! i) [0..<length ps]"
    proof (rule nth_equalityI)
      show "length (map (\<lambda>r. r ! i) (map fst ?sc))
              = length (map (\<lambda>p. weights antenna (ps ! p) theta phi ! i * N ! p ! i) [0..<length ps])"
        using lN lM by simp
    next
      fix p assume "p < length (map (\<lambda>r. r ! i) (map fst ?sc))"
      then have p: "p < length ps" using lN lM by simp
      obtain F_p F_c F_x where a: "antenna (pos (ps ! p)) theta phi = (F_p, F_c, F_x)"
        by (metis prod_cases3)
      have "fst (?g (?zs ! p)) ! i = weights antenna (ps ! p) theta phi ! i * N ! p ! i"
        using sh p i by (simp add: g [OF p] a weights_def scale_N_nth)
      then show "map (\<lambda>r. r ! i) (map fst ?sc) ! p
          = map (\<lambda>p. weights antenna (ps ! p) theta phi ! i * N ! p ! i) [0..<length ps] ! p"
        using p lz by simp
    qed
    then show "sum_list (map (\<lambda>r. r ! i) (map fst ?sc))
        = sum_list (map (\<lambda>p. weights antenna (ps ! p) theta phi ! i * N ! p ! i) [0..<length ps])"
      by simp
  qed
  have Ms: "sum_M (map snd ?sc) = M_sum_spec antenna ps M theta phi"
    unfolding sum_M_def M_sum_spec_def
  proof (rule map_cong [OF refl], rule map_cong [OF refl])
    fix i j assume "i \<in> set [0..<4]" "j \<in> set [0..<4]"
    then have i: "i < 4" and j: "j < 4" by simp_all
    let ?w = "\<lambda>p. weights antenna (ps ! p) theta phi"
    have "map (\<lambda>m. m ! i ! j) (map snd ?sc)
            = map (\<lambda>p. ?w p ! i * ?w p ! j * M ! p ! i ! j) [0..<length ps]"
    proof (rule nth_equalityI)
      show "length (map (\<lambda>m. m ! i ! j) (map snd ?sc))
              = length (map (\<lambda>p. ?w p ! i * ?w p ! j * M ! p ! i ! j) [0..<length ps])"
        using lN lM by simp
    next
      fix p assume "p < length (map (\<lambda>m. m ! i ! j) (map snd ?sc))"
      then have p: "p < length ps" using lN lM by simp
      obtain F_p F_c F_x where a: "antenna (pos (ps ! p)) theta phi = (F_p, F_c, F_x)"
        by (metis prod_cases3)
      have m: "is_mat 4 4 (M ! p)" using sh p by simp
      have "snd (?g (?zs ! p)) ! i ! j = ?w p ! i * ?w p ! j * M ! p ! i ! j"
        by (simp add: g [OF p] a weights_def scale_M_nth [OF m i j])
      then show "map (\<lambda>m. m ! i ! j) (map snd ?sc) ! p
          = map (\<lambda>p. ?w p ! i * ?w p ! j * M ! p ! i ! j) [0..<length ps] ! p"
        using p lz by simp
    qed
    then show "sum_list (map (\<lambda>m. m ! i ! j) (map snd ?sc))
        = sum_list (map (\<lambda>p. ?w p ! i * ?w p ! j * M ! p ! i ! j) [0..<length ps])"
      by simp
  qed
  let ?Ns = "N_sum_spec antenna ps N theta phi"
  let ?Ms = "M_sum_spec antenna ps M theta phi"
  have lNs: "length ?Ns = 4" by (simp add: N_sum_spec_def)
  have "is_mat 4 4 ?Ms" by (simp add: M_sum_spec_def is_mat_def list_all_length)
  with pinv have P: "is_mat 4 4 (pinv ?Ms)" by blast
  have nP: "ncols (pinv ?Ms) = 4" using P by (simp add: is_mat_ncols)
  have lP: "length (pinv ?Ms) = 4" using P by (simp add: is_mat_def)
  have "sky_point antenna pinv ps N M [theta, phi]
          = ebind (dot_mv (pinv ?Ms) ?Ns) (\<lambda>w. ebind (dot_vv ?Ns w) (\<lambda>q. Inr (0.5 * q)))"
    unfolding sky_point_def e ebind_simps Ns Ms ..
  also have "\<dots> = Inr (Fe_spec antenna pinv ps N M theta phi)"
    by (simp add: dot_mv_def dot_vv_def nP lP lNs Fe_spec_def)
  finally show ?thesis .
qed

lemma scale_N_scale:
  "scale_N F_p F_c (map (\<lambda>v. c * v) r) = map (\<lambda>v. c * v) (scale_N F_p F_c r)"
proof -
  have "map2 (*) (map (\<lambda>v. c * v) r) w = map (\<lambda>v. c * v) (map2 (*) r w)" for w :: vec
  proof (induction r arbitrary: w)
    case Nil
    show ?case by simp
  next
    case (Cons a r)
    show ?case by (cases w) (simp_all add: Cons.IH mult.assoc)
  qed
  then show ?thesis by (simp add: scale_N_def)
qed

lemma scale_psr_scale:
  "scale_psr antenna gw
     (p\<lparr>residuals := map (\<lambda>r. c * r) (residuals p)\<rparr>, map (\<lambda>v. c * v) Nrow, Mrow)
   = map_sum id (\<lambda>(a, b). (map (\<lambda>v. c * v) a, b)) (scale_psr antenna gw (p, Nrow, Mrow))"
  by (simp add: scale_psr_def scale_N_scale split: prod.splits)

lemma sum_N_scale:
  assumes "\<forall>r\<in>set NN. length r = 4"
  shows "sum_N (map (map (\<lambda>v. c * v)) NN) = map (\<lambda>v. c * v) (sum_N NN)"
proof -
  have "sum_list (map (\<lambda>r. r ! i) (map (map (\<lambda>v. c * v)) NN))
          = c * sum_list (map (\<lambda>r. r ! i) NN)" if "i < 4" for i
  proof -
    have "map (\<lambda>r. r ! i) (map (map (\<lambda>v. c * v)) NN) = map (\<lambda>r. c * r ! i) NN"
      using assms that by simp
    then have "sum_list (map (\<lambda>r. r ! i) (map (map (\<lambda>v. c * v)) NN))
                 = sum_list (map (\<lambda>r. c * r ! i) NN)"
      by (rule arg_cong)
    also have "\<dots> = c * sum_list (map (\<lambda>r. r ! i) NN)"
      by (rule sum_list_const_mult)
    finally show ?thesis .
  qed
  then show ?thesis by (simp add: sum_N_def)
qed

lemma sky_point_scale:
  assumes rows: "\<forall>r\<in>set N. length r = 4"
  shows "sky_point antenna pinv (map (\<lambda>p. p\<lparr>residuals := map (\<lambda>r. c * r) (residuals p)\<rparr>) ps)
           (map (map (\<lambda>v. c * v)) N) M gw
         = map_sum id (\<lambda>v. c\<^sup>2 * v) (sky_point antenna pinv ps N M gw)"
proof -
  let ?sc = "\<lambda>p. p\<lparr>residuals := map (\<lambda>r. c * r) (residuals p)\<rparr>"
  let ?h = "\<lambda>(a, b). (map (\<lambda>v. c * v) a, b :: mat)"
  let ?g = "\<lambda>(p, a, b). (?sc p, map (\<lambda>v. c * v) a, b :: mat)"
  have z: "zip (map ?sc ps) (zip (map (map (\<lambda>v. c * v)) N) M) = map ?g (zip ps (zip N M))"
    by (simp add: zip_map1 zip_map2 split_def)
  have "emap (scale_psr antenna gw) (zip (map ?sc ps) (zip (map (map (\<lambda>v. c * v)) N) M))
          = emap (\<lambda>x. scale_psr antenna gw (?g x)) (zip ps (zip N M))"
    unfolding z by (rule emap_map)
  also have "\<dots> = map_sum id (map ?h) (emap (scale_psr antenna gw) (zip ps (zip N M)))"
    by (rule emap_map_sum) (auto simp: scale_psr_scale)
  finally have e: "emap (scale_psr antenna gw) (zip (map ?sc ps) (zip (map (map (\<lambda>v. c * v)) N) M))
          = map_sum id (map ?h) (emap (scale_psr antenna gw) (zip ps (zip N M)))" .
  show ?thesis
  proof (cases "emap (scale_psr antenna gw) (zip ps (zip N M))")
    case (Inl err)
    then show ?thesis by (simp add: sky_point_def e)
  next
    case (Inr scaled)
    have f: "map fst (map ?h scaled) = map (map (\<lambda>v. c * v)) (map fst scaled)"
      "map snd (map ?h scaled) = map snd scaled"
      by (simp_all add: split_def)
    have l4: "\<forall>r\<in>set (map fst scaled). length r = 4"
    proof
      fix r assume "r \<in> set (map fst scaled)"
      then obtain i where i: "i < length scaled" and r: "r = fst (scaled ! i)"
        by (auto simp: in_set_conv_nth)
      have li: "i < length (zip ps (zip N M))" using emap_Inr_length [OF Inr] i by simp
      obtain p a b where x: "zip ps (zip N M) ! i = (p, a, b)" by (metis prod_cases3)
      have "a \<in> set N" using li x by (metis in_set_zipE nth_mem)
      then have la: "length a = 4" using rows by simp
      have "scale_psr antenna gw (p, a, b) = Inr (scaled ! i)"
        using emap_Inr_nth [OF Inr li] x by simp
      then obtain F_p F_c where "fst (scaled ! i) = scale_N F_p F_c a"
        by (auto simp: scale_psr_def split: if_splits prod.splits dest: sym)
      then show "length r = 4"
        using la r by (simp add: scale_N_length)
    qed
    let ?Ns = "sum_N (map fst scaled)"
    let ?P = "pinv (sum_M (map snd scaled))"
    have s: "sum_N (map (map (\<lambda>v. c * v)) (map fst scaled)) = map (\<lambda>v. c * v) ?Ns"
      using l4 by (rule sum_N_scale)
    have "sky_point antenna pinv (map ?sc ps) (map (map (\<lambda>v. c * v)) N) M gw
            = ebind (dot_mv ?P (map (\<lambda>v. c * v) ?Ns)) (\<lambda>w.
              ebind (dot_vv (map (\<lambda>v. c * v) ?Ns) w) (\<lambda>q. Inr (0.5 * q)))"
      by (simp add: sky_point_def e Inr f s del: map_map)
    also have "\<dots> = map_sum id (\<lambda>v. c\<^sup>2 * v)
                      (ebind (dot_mv ?P ?Ns) (\<lambda>w. ebind (dot_vv ?Ns w) (\<lambda>q. Inr (0.5 * q))))"
      by (simp add: dot_mv_def dot_vv_def matvec_scale vdot_scale_right vdot_scale_left
          power2_eq_square)
    also have "\<dots> = map_sum id (\<lambda>v. c\<^sup>2 * v) (sky_point antenna pinv ps N M gw)"
      by (simp add: sky_point_def Inr)
    finally show ?thesis .
  qed
qed

lemma get_Nmats_scale: "get_Nmats (scale_residuals c self) = get_Nmats self"
  by (simp add: get_Nmats_def scale_residuals_def)

lemma compute_Fe_fst:
  "fst (compute_Fe antenna pinv self f0 gw_skyloc brave)
     = ebind (case Nmats self of None \<Rightarrow> get_Nmats self | Some c \<Rightarrow> Inr c) (\<lambda>c.
       ebind (all_NM f0 brave (psrs self) c (get_TNT (pta self) (params self))
                (get_phiinv (pta self) (params self) Cliques) (get_basis (pta self) None))
         (\<lambda>(N, M). emap (sky_point antenna pinv (psrs self) N M) (transpose_m gw_skyloc)))"
  by (simp add: compute_Fe_def split: sum.splits option.splits)

section \<open>The small instance, evaluated\<close>

lemma up4: "[0..<4] = [0, 1, 2, 3]"
  by (simp add: upt_rec numeral_eq_Suc)

lemma ipr_example:
  "innerProduct_rr [a] [b] [[3 / 4]] [[1]] [[4]] None None False = Inr (39 / 64 * a * b)"
  by (simp add: innerProduct_rr_def dot_vm_def dot_vv_def dot_mv_def vecmat_def matvec_def
        nrows_def ncols_def column_def transpose_m_def factor_and_solve_def cho_factor_def
        is_square_def cho_solve_def chol_solve_def urow_def schur_def algebra_simps)

lemma pulsar_NM_psr0:
  "pulsar_NM 1 False psr0 [[3 / 4]] [[1]] (Arr1 [3]) [[1]]
     = Inr ([0, 39 / 64, 0, 0],
            [[0, 0, 0, 0], [0, 39 / 64, 0, 39 / 64], [0, 0, 0, 0], [0, 39 / 64, 0, 39 / 64]])"
  by (simp add: pulsar_NM_def form_Sigma_def mat_add_def same_shape_def diag_def psr0_def
      templates_def up4 ipr_example)

lemma make_Nmat_example:
  "make_Nmat (Arr1 [5 / 2]) [[3 / 2]] (white_noise [1, 2]) [[1], [1]]
     = Inr [[3 / 4, - 1 / 8], [- 1 / 8, 7 / 16]]"
  by (simp add: make_Nmat_def form_Sigma_def mat_add_def same_shape_def diag_def
      cho_factor_def is_square_def urow_def schur_def white_noise_def eye_def nrows_def ncols_def
      dot_mm_def transpose_m_def column_def vecmat_def cho_solve_mat_def chol_solve_def
      mat_sub_def numeral_2_eq_2)

lemma make_Nmat_pta0:
  "make_Nmat (Arr1 [3]) [[1]] (white_noise [1]) [[1]] = Inr [[3 / 4]]"
  by (simp add: make_Nmat_def form_Sigma_def mat_add_def same_shape_def diag_def
      cho_factor_def is_square_def urow_def schur_def white_noise_def eye_def nrows_def ncols_def
      dot_mm_def transpose_m_def column_def vecmat_def cho_solve_mat_def chol_solve_def
      mat_sub_def)

lemma make_Nmat_indefinite:
  "make_Nmat (Arr1 [- 3]) [[1]] (white_noise [1]) [[1]] = Inl LinAlgError"
  by (simp add: make_Nmat_def form_Sigma_def mat_add_def same_shape_def diag_def
      cho_factor_def is_square_def)

lemma get_Nmats_fe0: "get_Nmats fe0 = Inr [[[3 / 4]]]"
  by (simp add: get_Nmats_def fe0_def FeStat_init_def pta0_def make_Nmat_pta0)

lemma get_Nmats_fe_short: "get_Nmats fe_short = Inr [[[3 / 4]]]"
  by (simp add: get_Nmats_def fe_short_def FeStat_init_def pta0_def make_Nmat_pta0)

lemma get_Nmats_fe_two: "get_Nmats fe_two = Inr [[[3 / 4]], [[3 / 4]]]"
  by (simp add: get_Nmats_def fe_two_def FeStat_init_def pta_two_def make_Nmat_pta0)

lemma get_Nmats_fe_short_indefinite: "get_Nmats fe_short_indefinite = Inl LinAlgError"
  by (simp add: get_Nmats_def fe_short_indefinite_def FeStat_init_def pta_indefinite_def
      make_Nmat_indefinite)

lemma all_NM_fe0:
  "all_NM 1 False (psrs fe0) [[[3 / 4]]] (get_TNT (pta fe0) (params fe0))
     (get_phiinv (pta fe0) (params fe0) Cliques) (get_basis (pta fe0) None)
   = Inr ([[0, 39 / 64, 0, 0]],
          [[[0, 0, 0, 0], [0, 39 / 64, 0, 39 / 64], [0, 0, 0, 0], [0, 39 / 64, 0, 39 / 64]]])"
  by (simp add: all_NM_def fe0_def FeStat_init_def pta0_def pulsar_NM_psr0)

lemma Fe_spec_fe0:
  "Fe_spec antenna_plus pinv_diag (psrs fe0) [[0, 39 / 64, 0, 0]]
     [[[0, 0, 0, 0], [0, 39 / 64, 0, 39 / 64], [0, 0, 0, 0], [0, 39 / 64, 0, 39 / 64]]] 0 0
   = 39 / 128"
  by (simp add: Fe_spec_def N_sum_spec_def M_sum_spec_def weights_def antenna_plus_def
      pinv_diag_def matvec_def fe0_def FeStat_init_def up4)

lemma sky_point_fe0:
  "sky_point antenna_plus pinv_diag (psrs fe0) [[0, 39 / 64, 0, 0]]
     [[[0, 0, 0, 0], [0, 39 / 64, 0, 39 / 64], [0, 0, 0, 0], [0, 39 / 64, 0, 39 / 64]]] [0, 0]
   = Inr (39 / 128)"
  by (simp add: sky_point_def scale_psr_def antenna_plus_def scale_N_def scale_M_def
      sum_N_def sum_M_def pinv_diag_def dot_mv_def dot_vv_def matvec_def ncols_def
      fe0_def FeStat_init_def up4)

lemma compute_Fe_fe0:
  "fst (compute_Fe antenna_plus pinv_diag fe0 1 [[0], [0]] False) = Inr [39 / 128]"
proof -
  have n: "Nmats fe0 = None" by (simp add: fe0_def FeStat_init_def)
  have t: "transpose_m [[0], [0]] = [[0, 0 :: real]]"
    by (simp add: transpose_m_def ncols_def column_def)
  show ?thesis
    using all_NM_fe0 by (simp add: compute_Fe_fst n get_Nmats_fe0 t sky_point_fe0)
qed

section \<open>The per-pulsar inner products\<close>

text \<open>
  C1.  The fourth entry of a pulsar's vector \<open>N\<close> is computed from row \<open>A[2]\<close>, not from
  row \<open>A[3]\<close>.  For the pulsar \<open>psr0\<close> at \<open>f0 = 1\<close> the rows are \<open>A[2] = [0]\<close> and
  \<open>A[3] = [1]\<close>: the loop body stores \<open>N[3] = 0\<close>, while the inner product of \<open>A[3]\<close>
  with the residuals is \<open>39/64\<close>.
\<close>

theorem pulsar_NM_fourth_entry:
  "pulsar_NM 1 False psr0 [[3 / 4]] [[1]] (Arr1 [3]) [[1]]
     = Inr ([0, 39 / 64, 0, 0],
            [[0, 0, 0, 0], [0, 39 / 64, 0, 39 / 64], [0, 0, 0, 0], [0, 39 / 64, 0, 39 / 64]])
   \<and> innerProduct_rr (templates 1 (toas psr0) ! 3) (residuals psr0)
        [[3 / 4]] [[1]] [[4]] None None False = Inr (39 / 64)"
  using pulsar_NM_psr0 by (simp add: psr0_def templates_def ipr_example)

section \<open>The inner product\<close>

text \<open>
  C2.  On vectors \<open>x\<close>, \<open>y\<close> of length \<open>n\<close>, an \<open>n \<times> n\<close> matrix \<open>Nmat\<close>, an
  \<open>n \<times> m\<close> matrix \<open>Tmat\<close> and a symmetric positive definite \<open>m \<times> m\<close> matrix
  \<open>Sigma\<close>, \<open>innerProduct_rr\<close> returns
  \<open>x\<^sup>T Nmat y - (T\<^sup>T Nmat x)\<^sup>T z\<close>, where \<open>z\<close> is the one solution of
  \<open>Sigma z = T\<^sup>T Nmat y\<close>, that is \<open>Sigma\<^sup>-\<^sup>1 T\<^sup>T Nmat y\<close>.  The function is a pure
  function of its arguments.
\<close>

theorem innerProduct_rr_value:
  assumes lx: "length x = n" and ly: "length y = n"
    and N: "is_mat n n Nmat" and T: "is_mat n m Tmat" and n: "0 < n" and m: "0 < m"
    and S: "symmetric Sigma_m" and lS: "length Sigma_m = m"
    and pd: "\<And>v. length v = m \<Longrightarrow> v \<noteq> replicate m 0 \<Longrightarrow> 0 < vdot v (matvec Sigma_m v)"
  shows "\<exists>z. length z = m
           \<and> matvec Sigma_m z = matvec (transpose_m Tmat) (matvec Nmat y)
           \<and> (\<forall>z'. length z' = m
                  \<and> matvec Sigma_m z' = matvec (transpose_m Tmat) (matvec Nmat y)
                \<longrightarrow> z' = z)
           \<and> innerProduct_rr x y Nmat Tmat Sigma_m None None brave
               = Inr (vdot x (matvec Nmat y)
                      - vdot (matvec (transpose_m Tmat) (matvec Nmat x)) z)"
proof -
  let ?Tt = "transpose_m Tmat"
  let ?b = "matvec ?Tt (matvec Nmat y)"
  obtain U where f: "cho_factor True Sigma_m = Inr U"
    using cho_factor_complete [OF S, of True] pd lS by auto
  let ?z = "chol_solve U ?b"
  have lN: "length Nmat = n" using N by (simp add: is_mat_def)
  have sq: "is_square Nmat" using N by (rule is_mat_square)
  have Tt: "is_mat m n ?Tt" using T n by (rule is_mat_transpose)
  have lTt: "length ?Tt = m" using Tt by (simp add: is_mat_def)
  have nTt: "ncols ?Tt = n" using Tt m by (rule is_mat_ncols)
  from cho_factor_tri [OF f] have t: "tri U" and lU: "length U = m" and c: "chol_upper Sigma_m = Inr U"
    using lS by simp_all
  have lb: "length ?b = length Sigma_m" using lTt lS by simp
  have z1: "length ?z = m" using length_chol_solve [OF t, of ?b] lU lTt by simp
  have z2: "matvec Sigma_m ?z = ?b" using chol_solve_correct [OF c S lb] .
  have z3: "z' = ?z" if "length z' = m \<and> matvec Sigma_m z' = ?b" for z'
    using chol_solve_unique [OF c S, of z' ?b] that lS by simp
  have xy: "vdot (vecmat x Nmat) y = vdot x (matvec Nmat y)"
    using vecmat_assoc [of x Nmat y] lx ly lN square_rect [OF sq] is_square_ncols [OF sq] by simp
  have "innerProduct_rr x y Nmat Tmat Sigma_m None None brave
          = Inr (vdot x (matvec Nmat y) - vdot (matvec ?Tt (matvec Nmat x)) ?z)"
    using innerProduct_rr_default [of x Nmat y Tmat Sigma_m brave] lx ly lN sq
    by (simp add: nTt f lU lTt xy)
  with z1 z2 z3 show ?thesis by blast
qed

theorem innerProduct_rr_value_witness:
  "\<exists>z. length z = 1
       \<and> matvec [[4]] z = matvec (transpose_m [[1], [1]]) (matvec [[2, 1], [1, 3]] [3, 4])
       \<and> (\<forall>z'. length z' = 1
              \<and> matvec [[4]] z' = matvec (transpose_m [[1], [1]]) (matvec [[2, 1], [1, 3]] [3, 4])
            \<longrightarrow> z' = z)
       \<and> innerProduct_rr [1, 2] [3, 4] [[2, 1], [1, 3]] [[1], [1]] [[4]] None None False
           = Inr (vdot [1, 2] (matvec [[2, 1], [1, 3]] [3, 4])
                  - vdot (matvec (transpose_m [[1], [1]]) (matvec [[2, 1], [1, 3]] [1, 2])) z)"
proof -
  have h1: "length [1, 2 :: real] = 2" "length [3, 4 :: real] = 2" by simp_all
  have h2: "is_mat 2 2 [[2, 1], [1, 3]]" "is_mat 2 1 [[1], [1]]" by (simp_all add: is_mat_def)
  have h3: "symmetric [[4]]" "length [[4 :: real]] = 1"
    by (simp_all add: symmetric_def is_square_def transpose_m_def ncols_def column_def)
  have h4: "0 < vdot v (matvec [[4]] v)" if "length v = 1" "v \<noteq> replicate 1 0" for v
  proof -
    from that obtain a where "v = [a]" "a \<noteq> 0" by (cases v) auto
    then show ?thesis by (auto simp: matvec_def zero_less_mult_iff)
  qed
  show ?thesis
    by (rule innerProduct_rr_value [OF h1 h2 _ _ h3 h4]) simp_all
qed

section \<open>The marginalised noise matrix\<close>

text \<open>
  C3.  \<open>make_Nmat(phiinv, TNT, Nvec, T)\<close> forms \<open>Sigma = TNT + diag(phiinv)\<close> for a
  1-D \<open>phiinv\<close> and \<open>TNT + phiinv\<close> for a 2-D one, factorises it, takes
  \<open>TtN = Nvec.solve(I, T)\<close> and \<open>Ndiag = Nvec.solve(I, I)\<close>, and returns the
  \<open>n \<times> n\<close> matrix \<open>Ndiag - TtN\<^sup>T X\<close>, where \<open>X\<close> solves \<open>Sigma X = TtN\<close> column
  by column, that is \<open>X = Sigma\<^sup>-\<^sup>1 TtN\<close>.
\<close>

theorem make_Nmat_value:
  assumes n: "0 < n" and m: "0 < m" and T: "nrows T = n"
    and TNT: "is_mat m m TNT"
    and P: "case phiinv of Arr1 v \<Rightarrow> length v = m | Arr2 P \<Rightarrow> is_mat m m P"
    and f: "form_Sigma TNT phiinv = Inr Sigma_m"
    and S: "symmetric Sigma_m"
    and pd: "\<And>v. length v = m \<Longrightarrow> v \<noteq> replicate m 0 \<Longrightarrow> 0 < vdot v (matvec Sigma_m v)"
    and t1: "Nvec (eye n) T = Inr TtN" and t2: "is_mat m n TtN"
    and d1: "Nvec (eye n) (eye n) = Inr Ndiag" and d2: "is_mat n n Ndiag"
  shows "(\<forall>i<m. \<forall>j<m. Sigma_m ! i ! j = TNT ! i ! j
            + (case phiinv of Arr1 v \<Rightarrow> (if i = j then v ! i else 0) | Arr2 P \<Rightarrow> P ! i ! j))
       \<and> (\<exists>X R. is_mat m n X \<and> (\<forall>k<n. matvec Sigma_m (column X k) = column TtN k)
             \<and> make_Nmat phiinv TNT Nvec T = Inr R \<and> is_mat n n R
             \<and> (\<forall>i<n. \<forall>k<n. R ! i ! k = Ndiag ! i ! k - vdot (column TtN i) (column X k)))"
proof -
  have lS: "length Sigma_m = m"
    using f is_mat_length [OF TNT] P is_mat_diag
    by (cases phiinv) (auto simp: form_Sigma_def mat_add_def is_mat_def split: if_splits)
  obtain U where fU: "cho_factor True Sigma_m = Inr U"
    using cho_factor_complete [OF S, of True] pd lS by auto
  let ?X = "map (\<lambda>i. map (\<lambda>j. chol_solve U (column TtN j) ! i) [0..<n]) [0..<m]"
  let ?C = "map (\<lambda>r. vecmat r ?X) (transpose_m TtN)"
  let ?R = "map2 (map2 (-)) Ndiag ?C"
  from cho_factor_tri [OF fU] have t: "tri U" and lU: "length U = m"
    and c: "chol_upper Sigma_m = Inr U" using lS by simp_all
  have nT: "ncols TtN = n" using t2 m by (rule is_mat_ncols)
  have lT: "length TtN = m" using t2 by (rule is_mat_length)
  have X: "is_mat m n ?X" by (simp add: is_mat_def list_all_length)
  have nX: "ncols ?X = n" using X m by (rule is_mat_ncols)
  have lcol: "length (column TtN k) = m" for k by (simp add: column_def lT)
  have lsol: "length (chol_solve U (column TtN k)) = m" for k
    using length_chol_solve [OF t, of "column TtN k"] lU lcol by simp
  have colX: "column ?X k = chol_solve U (column TtN k)" if "k < n" for k
    using that lsol [of k] by (intro nth_equalityI) (simp_all add: column_def)
  have solved: "matvec Sigma_m (column ?X k) = column TtN k" if "k < n" for k
    using chol_solve_correct [OF c S, of "column TtN k"] lcol lS colX [OF that] by simp
  have Tt: "is_mat n m (transpose_m TtN)" using t2 m by (rule is_mat_transpose)
  have nTt: "ncols (transpose_m TtN) = m" using Tt n by (rule is_mat_ncols)
  have es: "cho_solve_mat True U TtN = Inr ?X"
    by (simp add: cho_solve_mat_def nrows_def lU lT nT)
  have ed: "dot_mm (transpose_m TtN) ?X = Inr ?C"
    by (simp add: dot_mm_def nTt nrows_def)
  have C: "is_mat n n ?C"
    using is_mat_length [OF Tt] by (intro is_matI) (simp_all add: nX)
  have em: "mat_sub Ndiag ?C = Inr ?R"
    using same_shape_mat [OF d2 C] by (simp add: mat_sub_def)
  have res: "make_Nmat phiinv TNT Nvec T = Inr ?R"
    by (simp add: make_Nmat_def f fU T t1 d1 es ed em)
  have R: "is_mat n n ?R"
    using is_mat_length [OF d2] is_mat_length [OF C] is_mat_nth [OF d2] is_mat_nth [OF C]
    by (intro is_matI) simp_all
  have ent: "?R ! i ! k = Ndiag ! i ! k - vdot (column TtN i) (column ?X k)"
    if i: "i < n" and k: "k < n" for i k
  proof -
    have "?C ! i ! k = vdot (transpose_m TtN ! i) (column ?X k)"
      using i k is_mat_length [OF Tt] by (simp add: vecmat_def nX)
    also have "transpose_m TtN ! i = column TtN i" using i by (simp add: transpose_m_def nT)
    finally show ?thesis
      using i k is_mat_length [OF d2] is_mat_length [OF C] is_mat_nth [OF d2 i] is_mat_nth [OF C i]
      by simp
  qed
  have "\<forall>i<m. \<forall>j<m. Sigma_m ! i ! j = TNT ! i ! j
            + (case phiinv of Arr1 v \<Rightarrow> (if i = j then v ! i else 0) | Arr2 P \<Rightarrow> P ! i ! j)"
    using form_Sigma_nth [OF f lS TNT P] by blast
  moreover have "\<exists>X R. is_mat m n X \<and> (\<forall>k<n. matvec Sigma_m (column X k) = column TtN k)
             \<and> make_Nmat phiinv TNT Nvec T = Inr R \<and> is_mat n n R
             \<and> (\<forall>i<n. \<forall>k<n. R ! i ! k = Ndiag ! i ! k - vdot (column TtN i) (column X k))"
    using X solved res R ent by blast
  ultimately show ?thesis by blast
qed

theorem make_Nmat_value_witness:
  "make_Nmat (Arr1 [5 / 2]) [[3 / 2]] (white_noise [1, 2]) [[1], [1]]
     = Inr [[3 / 4, - 1 / 8], [- 1 / 8, 7 / 16]]
   \<and> (\<exists>X R. is_mat 1 2 X \<and> (\<forall>k<2. matvec [[4]] (column X k) = column [[1, 1 / 2]] k)
         \<and> make_Nmat (Arr1 [5 / 2]) [[3 / 2]] (white_noise [1, 2]) [[1], [1]] = Inr R
         \<and> is_mat 2 2 R
         \<and> (\<forall>i<2. \<forall>k<2. R ! i ! k
               = [[1, 0], [0, 1 / 2]] ! i ! k - vdot (column [[1, 1 / 2]] i) (column X k)))"
proof -
  have h1: "(0::nat) < 2" "(0::nat) < 1" "nrows [[1], [1]] = 2" by (simp_all add: nrows_def)
  have h2: "is_mat 1 1 [[3 / 2]]"
    "case Arr1 [5 / 2] of Arr1 v \<Rightarrow> length v = 1 | Arr2 P \<Rightarrow> is_mat 1 1 P"
    by (simp_all add: is_mat_def)
  have h3: "form_Sigma [[3 / 2]] (Arr1 [5 / 2]) = Inr [[4]]"
    by (simp add: form_Sigma_def mat_add_def same_shape_def diag_def)
  have h4: "symmetric [[4]]"
    by (simp add: symmetric_def is_square_def transpose_m_def ncols_def column_def)
  have h5: "0 < vdot v (matvec [[4]] v)" if "length v = 1" "v \<noteq> replicate 1 0" for v
  proof -
    from that obtain a where "v = [a]" "a \<noteq> 0" by (cases v) auto
    then show ?thesis by (auto simp: matvec_def zero_less_mult_iff)
  qed
  have h6: "white_noise [1, 2] (eye 2) [[1], [1]] = Inr [[1, 1 / 2]]"
    by (simp add: white_noise_def eye_def nrows_def ncols_def dot_mm_def transpose_m_def
        column_def vecmat_def numeral_2_eq_2)
  have h7: "is_mat 1 2 [[1, 1 / 2]]" by (simp add: is_mat_def)
  have h8: "white_noise [1, 2] (eye 2) (eye 2) = Inr [[1, 0], [0, 1 / 2]]"
    by (simp add: white_noise_def eye_def nrows_def ncols_def dot_mm_def transpose_m_def
        column_def vecmat_def numeral_2_eq_2)
  have h9: "is_mat 2 2 [[1, 0], [0, 1 / 2]]" by (simp add: is_mat_def)
  show ?thesis
    using make_Nmat_value [where n = 2 and m = 1 and T = "[[1], [1]]" and TNT = "[[3 / 2]]"
        and phiinv = "Arr1 [5 / 2]" and Nvec = "white_noise [1, 2]" and Sigma_m = "[[4]]"
        and TtN = "[[1, 1 / 2]]" and Ndiag = "[[1, 0], [0, 1 / 2]]",
        OF h1 h2 h3 h4 h5 h6 h7 h8 h9]
      make_Nmat_example by blast
qed

section \<open>The statistic on the sky grid\<close>

text \<open>
  C4.  When the loop over the pulsars has produced \<open>N\<close> and \<open>M\<close>, \<open>compute_Fe\<close> on a
  \<open>2 \<times> k\<close> sky grid returns \<open>k\<close> numbers, and the one for grid point \<open>j\<close> is
  \<open>0.5 N_sum\<^sup>T pinv(M_sum) N_sum\<close> with \<open>N_sum\<close> and \<open>M_sum\<close> the sums over the pulsars
  of the vectors scaled by \<open>(F_p, F_p, F_c, F_c)\<close> and of the matrices scaled by the
  products of these weights.  \<open>pinv\<close> is any function that returns a \<open>4 \<times> 4\<close> matrix for
  a \<open>4 \<times> 4\<close> matrix.
\<close>

theorem compute_Fe_statistic:
  assumes f0: "0 < f0"
    and cache: "Nmats self = Some c \<or> (Nmats self = None \<and> get_Nmats self = Inr c)"
    and nm: "all_NM f0 brave (psrs self) c (get_TNT (pta self) (params self))
               (get_phiinv (pta self) (params self) Cliques) (get_basis (pta self) None)
             = Inr (N, M)"
    and sky: "is_mat 2 k gw_skyloc"
    and pinv: "\<forall>A. is_mat 4 4 A \<longrightarrow> is_mat 4 4 (pinv A)"
  shows "\<exists>fstat. fst (compute_Fe antenna pinv self f0 gw_skyloc brave) = Inr fstat
           \<and> length fstat = k
           \<and> (\<forall>j<k. fstat ! j = Fe_spec antenna pinv (psrs self) N M
                                    (gw_skyloc ! 0 ! j) (gw_skyloc ! 1 ! j))"
proof -
  let ?F = "\<lambda>j. Fe_spec antenna pinv (psrs self) N M (gw_skyloc ! 0 ! j) (gw_skyloc ! 1 ! j)"
  from all_NM_shape [OF nm]
  have lN: "length N = length (psrs self)" and lM: "length M = length (psrs self)"
    and sh: "\<forall>p<length (psrs self). length (N ! p) = 4 \<and> is_mat 4 4 (M ! p)" by simp_all
  have nc: "ncols gw_skyloc = k" using sky by (simp add: is_mat_ncols)
  obtain r0 r1 where gw: "gw_skyloc = [r0, r1]"
    using sky by (cases gw_skyloc; cases "tl gw_skyloc") (auto simp: is_mat_def)
  have col: "column gw_skyloc j = [gw_skyloc ! 0 ! j, gw_skyloc ! 1 ! j]" for j
    by (simp add: gw column_def)
  have "emap (sky_point antenna pinv (psrs self) N M) (transpose_m gw_skyloc)
          = emap (\<lambda>j. sky_point antenna pinv (psrs self) N M (column gw_skyloc j)) [0..<k]"
    unfolding transpose_m_def nc by (rule emap_map)
  also have "\<dots> = Inr (map ?F [0..<k])"
    by (rule emap_total) (simp only: col sky_point_spec [OF lN lM sh pinv])
  finally have e: "emap (sky_point antenna pinv (psrs self) N M) (transpose_m gw_skyloc)
          = Inr (map ?F [0..<k])" .
  have c: "(case Nmats self of None \<Rightarrow> get_Nmats self | Some c \<Rightarrow> Inr c) = Inr c"
    using cache by auto
  have "fst (compute_Fe antenna pinv self f0 gw_skyloc brave) = Inr (map ?F [0..<k])"
    by (simp add: compute_Fe_fst c nm e)
  then show ?thesis by simp
qed

theorem compute_Fe_statistic_witness:
  "\<exists>fstat. fst (compute_Fe antenna_plus pinv_diag fe0 1 [[0], [0]] False) = Inr fstat
     \<and> length fstat = 1 \<and> fstat ! 0 = 39 / 128"
proof -
  have h1: "Nmats fe0 = Some [[[3 / 4]]] \<or> (Nmats fe0 = None \<and> get_Nmats fe0 = Inr [[[3 / 4]]])"
    by (simp add: get_Nmats_fe0) (simp add: fe0_def FeStat_init_def)
  have h3: "is_mat 2 1 [[0], [0]]" by (simp add: is_mat_def)
  have h4: "\<forall>A. is_mat 4 4 A \<longrightarrow> is_mat 4 4 (pinv_diag A)"
    by (simp add: is_mat_def pinv_diag_def list_all_length)
  have h0: "(0::real) < 1" by simp
  from compute_Fe_statistic [OF h0 h1 all_NM_fe0 h3 h4, of antenna_plus]
  show ?thesis by (simp add: Fe_spec_fe0)
qed

section \<open>Symmetry of the inner product\<close>

text \<open>
  C5.  For vectors \<open>x\<close> and \<open>y\<close> of one length, a symmetric \<open>Nmat\<close> and a symmetric
  \<open>Sigma\<close>, \<open>innerProduct_rr(x, y, Nmat, Tmat, Sigma)\<close> and
  \<open>innerProduct_rr(y, x, Nmat, Tmat, Sigma)\<close> are the same: the same number, or the same
  exception.
\<close>

theorem innerProduct_rr_symmetric:
  assumes l: "length x = length y" and sN: "symmetric Nmat" and sS: "symmetric Sigma_m"
  shows "innerProduct_rr x y Nmat Tmat Sigma_m None None brave =
         innerProduct_rr y x Nmat Tmat Sigma_m None None brave"
proof (cases "length x = length Nmat")
  case False
  with l show ?thesis by (simp add: innerProduct_rr_bad_rows)
next
  case lx: True
  then have ly: "length y = length Nmat" using l by simp
  have sq: "is_square Nmat" using sN by (rule symmetric_square)
  let ?Tt = "transpose_m Tmat"
  let ?a = "matvec ?Tt (matvec Nmat x)" and ?b = "matvec ?Tt (matvec Nmat y)"
  have xy: "vdot (vecmat x Nmat) y = vdot (vecmat y Nmat) x"
    using symmetric_form [OF sN lx ly] by (simp add: symmetric_vecmat [OF sN])
  show ?thesis
  proof (cases "cho_factor True Sigma_m")
    case (Inl e)
    then show ?thesis
      by (simp add: innerProduct_rr_default [OF lx ly sq] innerProduct_rr_default [OF ly lx sq])
  next
    case (Inr U)
    from cho_factor_tri [OF Inr] have t: "tri U" by simp
    have "vdot ?a (chol_solve U ?b) = vdot ?b (chol_solve U ?a)" if "length U = length ?Tt"
      using vdot_chol_solve_commute [OF t, of ?a ?b] that by simp
    with Inr xy show ?thesis
      by (simp add: innerProduct_rr_default [OF lx ly sq] innerProduct_rr_default [OF ly lx sq])
  qed
qed

theorem innerProduct_rr_symmetric_witness:
  "innerProduct_rr [1, 2] [3, 4] [[2, 1], [1, 3]] [[1], [1]] [[4]] None None False
     = innerProduct_rr [3, 4] [1, 2] [[2, 1], [1, 3]] [[1], [1]] [[4]] None None False
   \<and> innerProduct_rr [3, 4] [1, 2] [[2, 1], [1, 3]] [[1], [1]] [[4]] None None False
     = Inr (- 115 / 4)"
proof -
  have h1: "length [1, 2 :: real] = length [3, 4 :: real]" by simp
  have h2: "symmetric [[2, 1], [1, 3]]"
    by (simp add: symmetric_def is_square_def transpose_m_def ncols_def column_def)
  have h3: "symmetric [[4]]"
    by (simp add: symmetric_def is_square_def transpose_m_def ncols_def column_def)
  have v: "innerProduct_rr [3, 4] [1, 2] [[2, 1], [1, 3]] [[1], [1]] [[4]] None None False
             = Inr (- 115 / 4)"
    by (simp add: innerProduct_rr_def dot_vm_def dot_vv_def dot_mv_def vecmat_def matvec_def
        nrows_def ncols_def column_def transpose_m_def factor_and_solve_def cho_factor_def
        is_square_def cho_solve_def chol_solve_def urow_def schur_def)
  show ?thesis
    using innerProduct_rr_symmetric [OF h1 h2 h3, of "[[1], [1]]" False] v by simp
qed

section \<open>Scaling the residuals\<close>

text \<open>
  C6.  For a positive \<open>c\<close>, multiplying every residual of every pulsar by \<open>c\<close> multiplies
  every entry of the sequence returned by \<open>compute_Fe\<close> by \<open>c\<^sup>2\<close> (and a call that
  raises still raises the same exception); frequency, sky grid and pta data are unchanged.
\<close>

theorem compute_Fe_residual_scaling:
  assumes c: "0 < c" and f0: "0 < f0"
  shows "fst (compute_Fe antenna pinv (scale_residuals c self) f0 gw_skyloc brave)
           = map_sum id (map (\<lambda>v. c\<^sup>2 * v))
               (fst (compute_Fe antenna pinv self f0 gw_skyloc brave))"
proof -
  let ?cache = "case Nmats self of None \<Rightarrow> get_Nmats self | Some c \<Rightarrow> Inr c"
  let ?TNTs = "get_TNT (pta self) (params self)"
  let ?phis = "get_phiinv (pta self) (params self) Cliques"
  let ?Ts = "get_basis (pta self) None"
  let ?sc = "\<lambda>p. p\<lparr>residuals := map (\<lambda>r. c * r) (residuals p)\<rparr>"
  have fields: "pta (scale_residuals c self) = pta self"
    "params (scale_residuals c self) = params self"
    "Nmats (scale_residuals c self) = Nmats self"
    "psrs (scale_residuals c self) = map ?sc (psrs self)"
    by (simp_all add: scale_residuals_def)
  have cs: "(case Nmats self of
               None \<Rightarrow> get_Nmats (scale_residuals c self) | Some c \<Rightarrow> Inr c) = ?cache"
    by (simp add: get_Nmats_scale split: option.splits)
  show ?thesis
  proof (cases ?cache)
    case (Inl e)
    then show ?thesis
      by (simp add: compute_Fe_fst fields cs)
  next
    case (Inr cs)
    note cache = this
    show ?thesis
    proof (cases "all_NM f0 brave (psrs self) cs ?TNTs ?phis ?Ts")
      case (Inl e)
      then show ?thesis
        by (simp add: compute_Fe_fst cs cache fields all_NM_scale)
    next
      case (Inr NM)
      obtain N M where NM: "NM = (N, M)" by (cases NM)
      from all_NM_shape [OF Inr [unfolded NM]]
      have lN: "length N = length (psrs self)"
        and sh: "\<forall>p<length (psrs self). length (N ! p) = 4 \<and> is_mat 4 4 (M ! p)" by simp_all
      have rows: "\<forall>r\<in>set N. length r = 4" using lN sh by (auto simp: in_set_conv_nth)
      have sky: "emap (sky_point antenna pinv (map ?sc (psrs self)) (map (map (\<lambda>v. c * v)) N) M) gs
                   = map_sum id (map (\<lambda>v. c\<^sup>2 * v))
                       (emap (sky_point antenna pinv (psrs self) N M) gs)" for gs
        by (rule emap_map_sum) (rule sky_point_scale [OF rows])
      show ?thesis
        by (simp add: compute_Fe_fst cs cache fields all_NM_scale Inr NM sky)
    qed
  qed
qed

theorem compute_Fe_residual_scaling_witness:
  "fst (compute_Fe antenna_plus pinv_diag (scale_residuals 2 fe0) 1 [[0], [0]] False)
     = Inr [39 / 32]
   \<and> fst (compute_Fe antenna_plus pinv_diag fe0 1 [[0], [0]] False) = Inr [39 / 128]"
proof -
  have h: "(0::real) < 2" "(0::real) < 1" by simp_all
  show ?thesis
    using compute_Fe_residual_scaling [OF h, of antenna_plus pinv_diag fe0 "[[0], [0]]" False]
    by (simp add: compute_Fe_fe0)
qed

section \<open>Residuals of the wrong length\<close>

text \<open>
  C7 as stated fails.  On a first call the exception for a pulsar with one residual too
  many is the ValueError of \<open>np.dot\<close>, raised after \<open>get_Nmats\<close> has factorised
  \<open>Sigma\<close> and filled the cache; and when that \<open>Sigma\<close> is not positive definite the call
  ends in the LinAlgError of the factorisation, the lengths never having been compared.
\<close>

theorem compute_Fe_length_mismatch_counterexample:
  "compute_Fe antenna_plus pinv_diag fe_short 1 [[0], [0]] False
     = (Inl ValueError, fe_short\<lparr>Nmats := Some [[[3 / 4]]]\<rparr>)
   \<and> compute_Fe antenna_plus pinv_diag fe_short_indefinite 1 [[0], [0]] False
     = (Inl LinAlgError, fe_short_indefinite)"
proof -
  have n1: "Nmats fe_short = None" by (simp add: fe_short_def FeStat_init_def)
  have n2: "Nmats fe_short_indefinite = None" by (simp add: fe_short_indefinite_def FeStat_init_def)
  have p: "pulsar_NM 1 False psr_short [[3 / 4]] [[1]] (Arr1 [3]) [[1]] = Inl ValueError"
    by (rule pulsar_NM_length_mismatch) (simp add: psr_short_def)
  have a: "all_NM 1 False (psrs fe_short) [[[3 / 4]]] (get_TNT (pta fe_short) (params fe_short))
             (get_phiinv (pta fe_short) (params fe_short) Cliques)
             (get_basis (pta fe_short) None) = Inl ValueError"
    by (simp add: all_NM_def fe_short_def FeStat_init_def pta0_def p)
  have "compute_Fe antenna_plus pinv_diag fe_short 1 [[0], [0]] False
     = (Inl ValueError, fe_short\<lparr>Nmats := Some [[[3 / 4]]]\<rparr>)"
    using a by (simp add: compute_Fe_def n1 get_Nmats_fe_short)
  moreover have "compute_Fe antenna_plus pinv_diag fe_short_indefinite 1 [[0], [0]] False
     = (Inl LinAlgError, fe_short_indefinite)"
    by (simp add: compute_Fe_def n2 get_Nmats_fe_short_indefinite)
  ultimately show ?thesis by simp
qed

text \<open>
  C7, as the code has it.  When the cache of \<open>Nmats\<close> is populated, or empty and
  \<open>get_Nmats\<close> succeeds, and pulsar \<open>k\<close> (one the loop reaches) has \<open>toas\<close> and
  \<open>residuals\<close> of different lengths while the loop body succeeds for the pulsars before
  it, \<open>compute_Fe\<close> raises the ValueError of \<open>np.dot\<close>, whatever the \<open>Sigma\<close> of that
  pulsar is, and the cache is populated afterwards.
\<close>

theorem compute_Fe_length_mismatch:
  assumes f0: "0 < f0"
    and cache: "Nmats self = Some c \<or> (Nmats self = None \<and> get_Nmats self = Inr c)"
    and k: "k < length (psrs self)" "k < length c"
      "k < length (get_TNT (pta self) (params self))"
      "k < length (get_phiinv (pta self) (params self) Cliques)"
      "k < length (get_basis (pta self) None)"
    and mismatch: "length (toas (psrs self ! k)) \<noteq> length (residuals (psrs self ! k))"
    and earlier: "\<forall>i<k. \<exists>r. pulsar_NM f0 brave (psrs self ! i) (c ! i)
                    (get_TNT (pta self) (params self) ! i)
                    (get_phiinv (pta self) (params self) Cliques ! i)
                    (get_basis (pta self) None ! i) = Inr r"
  shows "compute_Fe antenna pinv self f0 gw_skyloc brave
           = (Inl ValueError, self\<lparr>Nmats := Some c\<rparr>)"
proof -
  let ?TNTs = "get_TNT (pta self) (params self)"
  let ?phis = "get_phiinv (pta self) (params self) Cliques"
  let ?Ts = "get_basis (pta self) None"
  let ?zs = "zip (psrs self) (zip c (zip ?TNTs (zip ?phis ?Ts)))"
  let ?f = "\<lambda>(psr, Nmat, TNT, phiinv, T). pulsar_NM f0 brave psr Nmat TNT phiinv T"
  have nth: "?f (?zs ! i) = pulsar_NM f0 brave (psrs self ! i) (c ! i) (?TNTs ! i) (?phis ! i) (?Ts ! i)"
    if "i \<le> k" for i using that k by simp
  have "emap ?f ?zs = Inl ValueError"
  proof (rule emap_first_error [where k = k])
    show "k < length ?zs" using k by simp
    show "?f (?zs ! k) = Inl ValueError"
      using nth [of k] pulsar_NM_length_mismatch [OF mismatch] by simp
    show "\<forall>i<k. \<exists>r. ?f (?zs ! i) = Inr r"
      using earlier nth by (metis less_imp_le)
  qed
  then have "all_NM f0 brave (psrs self) c ?TNTs ?phis ?Ts = Inl ValueError"
    by (simp add: all_NM_def)
  moreover have "(case Nmats self of None \<Rightarrow> get_Nmats self | Some c \<Rightarrow> Inr c) = Inr c"
    using cache by auto
  ultimately show ?thesis by (simp add: compute_Fe_def)
qed

theorem compute_Fe_length_mismatch_witness:
  "compute_Fe antenna_plus pinv_diag fe_two 1 [[0], [0]] False
     = (Inl ValueError, fe_two\<lparr>Nmats := Some [[[3 / 4]], [[3 / 4]]]\<rparr>)"
proof -
  have h0: "(0::real) < 1" by simp
  have h1: "Nmats fe_two = Some [[[3 / 4]], [[3 / 4]]]
            \<or> (Nmats fe_two = None \<and> get_Nmats fe_two = Inr [[[3 / 4]], [[3 / 4]]])"
    by (simp add: get_Nmats_fe_two) (simp add: fe_two_def FeStat_init_def)
  have h2: "1 < length (psrs fe_two)" "1 < length [[[3 / 4 :: real]], [[3 / 4]]]"
    "1 < length (get_TNT (pta fe_two) (params fe_two))"
    "1 < length (get_phiinv (pta fe_two) (params fe_two) Cliques)"
    "1 < length (get_basis (pta fe_two) None)"
    by (simp_all add: fe_two_def FeStat_init_def pta_two_def)
  have h3: "length (toas (psrs fe_two ! 1)) \<noteq> length (residuals (psrs fe_two ! 1))"
    by (simp add: fe_two_def FeStat_init_def psr_short_def)
  have h4: "\<forall>i<1. \<exists>r. pulsar_NM 1 False (psrs fe_two ! i) ([[[3 / 4]], [[3 / 4]]] ! i)
                    (get_TNT (pta fe_two) (params fe_two) ! i)
                    (get_phiinv (pta fe_two) (params fe_two) Cliques ! i)
                    (get_basis (pta fe_two) None ! i) = Inr r"
    by (simp add: fe_two_def FeStat_init_def pta_two_def pulsar_NM_psr0)
  show ?thesis by (rule compute_Fe_length_mismatch [OF h0 h1 h2 h3 h4])
qed

section \<open>The cache of Nmats\<close>

text \<open>
  C8.  \<open>Nmats\<close> is None after construction.  \<open>compute_Fe\<close> leaves an instance whose
  cache is populated exactly as it was, and its result then does not depend on the noise
  descriptors, which only \<open>get_Nmats\<close> reads; on an instance whose cache is empty it
  stores the result of \<open>get_Nmats\<close> in \<open>Nmats\<close> and changes no other field (and
  nothing at all when \<open>get_Nmats\<close> raises).
\<close>

theorem Nmats_cache_lazy:
  "Nmats (FeStat_init model_cw ps prm) = None
   \<and> snd (compute_Fe antenna pinv self f0 gw_skyloc brave)
       = (case Nmats self of
            Some c \<Rightarrow> self
          | None \<Rightarrow> (case get_Nmats self of
                       Inl e \<Rightarrow> self
                     | Inr c \<Rightarrow> self\<lparr>Nmats := Some c\<rparr>))
   \<and> (Nmats self = Some c \<longrightarrow>
        fst (compute_Fe antenna pinv (self\<lparr>pta := (pta self)\<lparr>get_ndiag := g\<rparr>\<rparr>) f0 gw_skyloc brave)
        = fst (compute_Fe antenna pinv self f0 gw_skyloc brave))"
proof (intro conjI impI)
  show "Nmats (FeStat_init model_cw ps prm) = None"
    by (simp add: FeStat_init_def)
next
  show "snd (compute_Fe antenna pinv self f0 gw_skyloc brave)
       = (case Nmats self of
            Some c \<Rightarrow> self
          | None \<Rightarrow> (case get_Nmats self of
                       Inl e \<Rightarrow> self
                     | Inr c \<Rightarrow> self\<lparr>Nmats := Some c\<rparr>))"
  proof (cases "Nmats self")
    case None
    then show ?thesis by (cases "get_Nmats self") (simp_all add: compute_Fe_def)
  next
    case (Some cached)
    then show ?thesis by (simp add: compute_Fe_def)
  qed
next
  assume "Nmats self = Some c"
  then show "fst (compute_Fe antenna pinv (self\<lparr>pta := (pta self)\<lparr>get_ndiag := g\<rparr>\<rparr>)
                   f0 gw_skyloc brave)
             = fst (compute_Fe antenna pinv self f0 gw_skyloc brave)"
    by (simp add: compute_Fe_fst)
qed

theorem Nmats_cache_lazy_witness:
  "Nmats fe0 = None
   \<and> snd (compute_Fe antenna_plus pinv_diag fe0 1 [[0], [0]] False)
       = fe0\<lparr>Nmats := Some [[[3 / 4]]]\<rparr>
   \<and> snd (compute_Fe antenna_plus pinv_diag (fe0\<lparr>Nmats := Some [[[3 / 4]]]\<rparr>) 1 [[0], [0]] False)
       = fe0\<lparr>Nmats := Some [[[3 / 4]]]\<rparr>
   \<and> fst (compute_Fe antenna_plus pinv_diag
            (fe0\<lparr>Nmats := Some [[[3 / 4]]], pta := (pta fe0)\<lparr>get_ndiag := (\<lambda>_. [])\<rparr>\<rparr>)
            1 [[0], [0]] False)
       = fst (compute_Fe antenna_plus pinv_diag (fe0\<lparr>Nmats := Some [[[3 / 4]]]\<rparr>)
            1 [[0], [0]] False)"
proof -
  have n: "Nmats fe0 = None" by (simp add: fe0_def FeStat_init_def)
  have c: "Nmats (fe0\<lparr>Nmats := Some [[[3 / 4]]]\<rparr>) = Some [[[3 / 4]]]" by simp
  show ?thesis
    using Nmats_cache_lazy [of "\<lambda>_ _. pta0" "[psr0]" "()" antenna_plus pinv_diag fe0 1
        "[[0], [0]]" False "[[[3 / 4]]]" "\<lambda>_. []"]
      Nmats_cache_lazy [of "\<lambda>_ _. pta0" "[psr0]" "()" antenna_plus pinv_diag
        "fe0\<lparr>Nmats := Some [[[3 / 4]]]\<rparr>" 1 "[[0], [0]]" False "[[[3 / 4]]]" "\<lambda>_. []"]
    by (simp add: n get_Nmats_fe0)
qed

section \<open>A Sigma that is not positive definite\<close>





section \<open>Arrays for TNx and TNy\<close>

text \<open>
  C10.  When \<open>TNx\<close> is an array of more than one element, the guard
  \<open>TNx == None and TNy == None\<close> raises ValueError and the precomputed products are
  never used; the same happens when \<open>TNx\<close> is None and \<open>TNy\<close> is such an array.
\<close>

theorem innerProduct_rr_array_guard:
  assumes "1 < length a"
  shows "innerProduct_rr x y Nmat Tmat Sigma_m (Some a) TNy brave = Inl ValueError
       \<and> innerProduct_rr x y Nmat Tmat Sigma_m None (Some a) brave = Inl ValueError"
proof -
  from assms obtain a1 a2 as where a: "a = a1 # a2 # as"
    by (cases a; cases "tl a") auto
  have g1: "none_guard (Some a) TNy = Inl ValueError"
    by (simp add: none_guard_def py_and_def eq_None_def truth_def a)
  have g2: "none_guard None (Some a) = Inl ValueError"
    by (simp add: none_guard_def py_and_def eq_None_def truth_def a)
  show ?thesis
    by (simp add: innerProduct_rr_def dot_vm_def dot_vv_def dot_mv_def g1 g2)
qed

theorem innerProduct_rr_array_guard_witness:
  "innerProduct_rr [1, 2] [3, 4] [[2, 1], [1, 3]] [[1, 0], [0, 1]] [[2, 0], [0, 2]]
      (Some [4, 7]) (Some [10, 15]) False = Inl ValueError
   \<and> innerProduct_rr [1, 2] [3, 4] [[2, 1], [1, 3]] [[1, 0], [0, 1]] [[2, 0], [0, 2]]
      None (Some [4, 7]) False = Inl ValueError"
proof -
  have h: "1 < length [4, 7 :: real]" by simp
  show ?thesis using innerProduct_rr_array_guard [OF h] by blast
qed

end
